theory Spec2Isabelle
  imports Main "HOL-Library.Sublist"
begin

text \<open>
  The program is the library of \<^verbatim>\<open>streaming-down.ts\<close>: the classes
  \<^verbatim>\<open>MarkdownStreamChunker\<close>, \<^verbatim>\<open>MarkdownParser\<close>, \<^verbatim>\<open>HTMLRenderer\<close> and
  \<^verbatim>\<open>StreamingMarkdownParser\<close> as they stand first in that file, where every handler runs to
  its end inside the call of \<^verbatim>\<open>write\<close> or \<^verbatim>\<open>end\<close> that caused it.
\<close>

section \<open>Strings\<close>

text \<open>
  A JavaScript string is modelled as a \<^typ>\<open>string\<close>, a list of characters. The program
  compares characters only with the line break and with the backtick, and cuts strings only
  at positions it found by such comparisons, so the width of a code unit plays no role.
\<close>

definition newline :: char where
  "newline = CHR 0x0A"

definition boundary :: string where
  "boundary = [newline, newline]"

text \<open>
  \<^verbatim>\<open>s.indexOf(pat)\<close>: the index of the leftmost occurrence of \<open>pat\<close> in \<open>s\<close>;
  JavaScript's \<^verbatim>\<open>-1\<close> is \<open>None\<close>.
\<close>

fun indexOf :: "string \<Rightarrow> string \<Rightarrow> nat option" where
  "indexOf [] pat = (if pat = [] then Some 0 else None)"
| "indexOf (x # xs) pat =
     (if prefix pat (x # xs) then Some 0 else map_option Suc (indexOf xs pat))"

text \<open>\<^verbatim>\<open>s.slice(0, i)\<close> is \<open>take i s\<close> and \<^verbatim>\<open>s.slice(i)\<close> is \<open>drop i s\<close>, for \<open>i \<ge> 0\<close>.\<close>

section \<open>MarkdownStreamChunker\<close>

text \<open>
  The identifier of a block is the string \<^verbatim>\<open>block-n\<close> built from the counter
  \<^verbatim>\<open>nextBlockId\<close>; the model keeps the number \<open>n\<close>. The counter is a JavaScript
  number, exact on the integers below \<open>2^53\<close>; it is modelled as a natural number.
\<close>

type_synonym blockId = nat

text \<open>
  The string of an identifier, \<^verbatim>\<open>`block-${n}`\<close>: the decimal digits of the number behind
  the prefix.
\<close>

definition digit_char :: "nat \<Rightarrow> char" where
  "digit_char d = char_of (48 + d)"

function digits :: "nat \<Rightarrow> string" where
  "digits n = (if n < 10 then [digit_char n] else digits (n div 10) @ [digit_char (n mod 10)])"
  by pat_completeness auto
termination
  by (relation "measure (\<lambda>n. n)") auto

declare digits.simps [simp del]

definition blockId_string :: "blockId \<Rightarrow> string" where
  "blockId_string n = ''block-'' @ digits n"

datatype ChunkerEvent = block_start | block_update | block_end | stream_end

text \<open>An emission: the name of the event together with its payload.\<close>

datatype event =
    BlockStart blockId
  | BlockUpdate blockId string
  | BlockEnd blockId
  | StreamEnd

fun event_name :: "event \<Rightarrow> ChunkerEvent" where
  "event_name (BlockStart i) = block_start"
| "event_name (BlockUpdate i content) = block_update"
| "event_name (BlockEnd i) = block_end"
| "event_name StreamEnd = stream_end"

text \<open>
  The listeners are kept by reference (\<^verbatim>\<open>off\<close> compares them with \<^verbatim>\<open>!==\<close>), so the
  chunker stores references of some type \<open>'l\<close>. What a call of a listener does to the world
  outside the chunker, a state of type \<open>'s\<close>, is given by a parameter
  \<open>call :: 'l \<Rightarrow> event \<Rightarrow> 's \<Rightarrow> 's\<close> of every operation that emits. No listener of this
  repository calls back into the chunker.
\<close>

record 'l MarkdownStreamChunker =
  buffer :: string
  nextBlockId :: nat
  currentBlockId :: "blockId option"
  listeners :: "ChunkerEvent \<Rightarrow> 'l list"

definition new_chunker :: "'l MarkdownStreamChunker" where
  "new_chunker =
     \<lparr>buffer = [], nextBlockId = 1, currentBlockId = None, listeners = (\<lambda>ev. [])\<rparr>"

definition on :: "ChunkerEvent \<Rightarrow> 'l \<Rightarrow> 'l MarkdownStreamChunker \<Rightarrow> 'l MarkdownStreamChunker" where
  "on ev fn c = c\<lparr>listeners := (listeners c)(ev := listeners c ev @ [fn])\<rparr>"

definition off :: "ChunkerEvent \<Rightarrow> 'l \<Rightarrow> 'l MarkdownStreamChunker \<Rightarrow> 'l MarkdownStreamChunker" where
  "off ev fn c = c\<lparr>listeners := (listeners c)(ev := filter (\<lambda>l. l \<noteq> fn) (listeners c ev))\<rparr>"

definition emit ::
  "('l \<Rightarrow> event \<Rightarrow> 's \<Rightarrow> 's) \<Rightarrow> event \<Rightarrow> 'l MarkdownStreamChunker \<times> 's
     \<Rightarrow> 'l MarkdownStreamChunker \<times> 's" where
  "emit call e cs =
     (case cs of (c, s) \<Rightarrow> (c, fold (\<lambda>fn. call fn e) (listeners c (event_name e)) s))"

definition emitStart ::
  "('l \<Rightarrow> event \<Rightarrow> 's \<Rightarrow> 's) \<Rightarrow> 'l MarkdownStreamChunker \<times> 's
     \<Rightarrow> 'l MarkdownStreamChunker \<times> 's" where
  "emitStart call cs =
     (case cs of (c, s) \<Rightarrow>
        (case currentBlockId c of
           None \<Rightarrow>
             emit call (BlockStart (nextBlockId c))
               (c\<lparr>currentBlockId := Some (nextBlockId c), nextBlockId := nextBlockId c + 1\<rparr>, s)
         | Some i \<Rightarrow> (c, s)))"

text \<open>
  After \<open>emitStart\<close> a block is open, so the branch \<open>None\<close> below is never taken
  (lemma \<open>emitStart_opens\<close>); the source asserts it with \<^verbatim>\<open>this.currentBlockId!\<close>.
\<close>

definition emitUpdate ::
  "('l \<Rightarrow> event \<Rightarrow> 's \<Rightarrow> 's) \<Rightarrow> string \<Rightarrow> 'l MarkdownStreamChunker \<times> 's
     \<Rightarrow> 'l MarkdownStreamChunker \<times> 's" where
  "emitUpdate call content cs =
     (case emitStart call cs of (c, s) \<Rightarrow>
        (case currentBlockId c of
           Some i \<Rightarrow> emit call (BlockUpdate i content) (c, s)
         | None \<Rightarrow> (c, s)))"

definition emitEnd ::
  "('l \<Rightarrow> event \<Rightarrow> 's \<Rightarrow> 's) \<Rightarrow> 'l MarkdownStreamChunker \<times> 's
     \<Rightarrow> 'l MarkdownStreamChunker \<times> 's" where
  "emitEnd call cs =
     (case cs of (c, s) \<Rightarrow>
        (case currentBlockId c of
           None \<Rightarrow> (c, s)
         | Some i \<Rightarrow>
             (case emit call (BlockEnd i) (c, s) of (c', s') \<Rightarrow>
                (c'\<lparr>currentBlockId := None\<rparr>, s'))))"

lemma indexOf_bound: "indexOf s pat = Some i \<Longrightarrow> i + length pat \<le> length s"
proof (induction s arbitrary: i)
  case Nil
  then show ?case by (simp split: if_splits)
next
  case (Cons x xs)
  show ?case
  proof (cases "prefix pat (x # xs)")
    case True
    then have "length pat \<le> length (x # xs)" by (rule prefix_length_le)
    with True Cons.prems show ?thesis by simp
  next
    case False
    with Cons.prems obtain j where "indexOf xs pat = Some j" "i = Suc j" by auto
    with Cons.IH show ?thesis by fastforce
  qed
qed

text \<open>
  The loop of \<^verbatim>\<open>write\<close>: while the data holds a blank-line boundary, cut out the text
  before it, emit an update with it and close the block. The result is the data left and
  the state. The methods \<^verbatim>\<open>write\<close> and \<^verbatim>\<open>end\<close> of the chunker are \<open>chunker_write\<close> and
  \<open>chunker_end\<close> here, those of the orchestrator \<open>parser_write\<close> and \<open>parser_end\<close>, as
  the two words are keywords of Isabelle.
\<close>

function write_loop ::
  "('l \<Rightarrow> event \<Rightarrow> 's \<Rightarrow> 's) \<Rightarrow> string \<Rightarrow> 'l MarkdownStreamChunker \<times> 's
     \<Rightarrow> string \<times> 'l MarkdownStreamChunker \<times> 's" where
  "write_loop call data cs =
     (case indexOf data boundary of
        None \<Rightarrow> (data, cs)
      | Some idx \<Rightarrow>
          write_loop call (drop (idx + 2) data)
            (emitEnd call (emitUpdate call (take idx data) cs)))"
  by pat_completeness auto
termination
proof (relation "measure (\<lambda>(call, data, cs). length data)")
  show "wf (measure (\<lambda>(call, data, cs). length data))" by simp
next
  fix call :: "'l \<Rightarrow> event \<Rightarrow> 's \<Rightarrow> 's" and data cs idx
  assume "indexOf data boundary = Some idx"
  then have "idx + 2 \<le> length data"
    using indexOf_bound [of data boundary idx] by (simp add: boundary_def)
  then show "((call, drop (idx + 2) data, emitEnd call (emitUpdate call (take idx data) cs)),
               (call, data, cs)) \<in> measure (\<lambda>(call, data, cs). length data)"
    by simp
qed

declare write_loop.simps [simp del]

definition chunker_write ::
  "('l \<Rightarrow> event \<Rightarrow> 's \<Rightarrow> 's) \<Rightarrow> string \<Rightarrow> 'l MarkdownStreamChunker \<times> 's
     \<Rightarrow> 'l MarkdownStreamChunker \<times> 's" where
  "chunker_write call chunk cs =
     (case cs of (c, s) \<Rightarrow>
        (case write_loop call (buffer c @ chunk) (c\<lparr>buffer := []\<rparr>, s) of (data, c', s') \<Rightarrow>
           (if length data > 0 then emitUpdate call data (c'\<lparr>buffer := data\<rparr>, s')
            else (c', s'))))"

definition chunker_end ::
  "('l \<Rightarrow> event \<Rightarrow> 's \<Rightarrow> 's) \<Rightarrow> 'l MarkdownStreamChunker \<times> 's
     \<Rightarrow> 'l MarkdownStreamChunker \<times> 's" where
  "chunker_end call cs =
     (case cs of (c, s) \<Rightarrow>
        emit call StreamEnd
          (if length (buffer c) > 0
           then (case emitUpdate call (buffer c) (c, s) of (c', s') \<Rightarrow>
                   emitEnd call (c'\<lparr>buffer := []\<rparr>, s'))
           else (c, s)))"

section \<open>MarkdownParser\<close>

definition fence :: string where
  "fence = [CHR 0x60, CHR 0x60, CHR 0x60]"

text \<open>
  \<^verbatim>\<open>markdown.match(/```/g)\<close>: the matches of the fence, found from left to right, each
  search starting where the last match ended; \<^verbatim>\<open>null\<close> when there is none.
\<close>

fun fence_matches :: "string \<Rightarrow> string list" where
  "fence_matches (a # b # c # rest) =
     (if [a, b, c] = fence then fence # fence_matches rest else fence_matches (b # c # rest))"
| "fence_matches s = []"

definition match_fences :: "string \<Rightarrow> string list option" where
  "match_fences markdown =
     (case fence_matches markdown of [] \<Rightarrow> None | m # ms \<Rightarrow> Some (m # ms))"

record parse_result =
  html :: string
  isComplete :: bool

text \<open>
  \<^verbatim>\<open>marked.parse\<close> belongs to the library \<^verbatim>\<open>marked\<close>, not to this repository: it is the
  parameter \<open>marked_parse\<close>, any function from the markdown to the markup.
\<close>

definition parse :: "(string \<Rightarrow> string) \<Rightarrow> string \<Rightarrow> parse_result" where
  "parse marked_parse markdown =
     (let fences = length (case match_fences markdown of None \<Rightarrow> [] | Some ms \<Rightarrow> ms)
      in \<lparr>html = marked_parse markdown, isComplete = (fences mod 2 = 0)\<rparr>)"

section \<open>HTMLRenderer\<close>

text \<open>
  The elements the renderer creates live in a store, addressed by their index; the root's
  children and the map \<^verbatim>\<open>blocks\<close> hold addresses, as both hold references to the same
  \<^verbatim>\<open>div\<close> in the source.
\<close>

record element =
  dataset_blockId :: blockId
  innerHTML :: string
  classList :: "string list"

record HTMLRenderer =
  elements :: "element list"
  root :: "nat list"
  blocks :: "blockId \<rightharpoonup> nat"

definition element_at :: "HTMLRenderer \<Rightarrow> nat \<Rightarrow> element option" where
  "element_at r a = (if a < length (elements r) then Some (elements r ! a) else None)"

definition new_renderer :: HTMLRenderer where
  "new_renderer = \<lparr>elements = [], root = [], blocks = Map.empty\<rparr>"

definition createBlock :: "blockId \<Rightarrow> HTMLRenderer \<Rightarrow> HTMLRenderer" where
  "createBlock i r =
     (let a = length (elements r);
          el = \<lparr>dataset_blockId = i, innerHTML = [], classList = []\<rparr>
      in r\<lparr>elements := elements r @ [el], root := root r @ [a], blocks := (blocks r)(i \<mapsto> a)\<rparr>)"

definition updateBlock :: "blockId \<Rightarrow> string \<Rightarrow> HTMLRenderer \<Rightarrow> HTMLRenderer" where
  "updateBlock i h r =
     (case blocks r i of
        None \<Rightarrow> r
      | Some a \<Rightarrow>
          (case element_at r a of
             None \<Rightarrow> r
           | Some el \<Rightarrow> r\<lparr>elements := (elements r)[a := el\<lparr>innerHTML := h\<rparr>]\<rparr>))"

text \<open>\<^verbatim>\<open>classList.add\<close> adds a token that is not yet in the list.\<close>

definition classList_add :: "string \<Rightarrow> string list \<Rightarrow> string list" where
  "classList_add tok cl = (if tok \<in> set cl then cl else cl @ [tok])"

definition finalizeBlock :: "blockId \<Rightarrow> bool \<Rightarrow> HTMLRenderer \<Rightarrow> HTMLRenderer" where
  "finalizeBlock i complete r =
     (case blocks r i of
        None \<Rightarrow> r
      | Some a \<Rightarrow>
          (case element_at r a of
             None \<Rightarrow> r
           | Some el \<Rightarrow>
               (if complete
                then r\<lparr>elements :=
                         (elements r)[a := el\<lparr>classList := classList_add ''md-block-complete'' (classList el)\<rparr>]\<rparr>
                else r)))"

definition clear :: "HTMLRenderer \<Rightarrow> HTMLRenderer" where
  "clear r = r\<lparr>root := [], blocks := Map.empty\<rparr>"

section \<open>StreamingMarkdownParser\<close>

datatype session_state = idle | processing | paused | destroyed

text \<open>The four handlers of the orchestrator, as the references its chunker stores.\<close>

datatype listener = OnBlockStart | OnBlockUpdate | OnBlockEnd | OnEnd

text \<open>
  The collaborators outside the repository: \<^verbatim>\<open>marked.parse\<close> and the browser's
  \<^verbatim>\<open>innerText\<close> of an element.
\<close>

record platform =
  marked_parse :: "string \<Rightarrow> string"
  innerText :: "element \<Rightarrow> string"

record StreamingMarkdownParser =
  chunker :: "listener MarkdownStreamChunker"
  renderer :: HTMLRenderer
  state :: session_state

definition onBlockStart :: "blockId \<Rightarrow> StreamingMarkdownParser \<Rightarrow> StreamingMarkdownParser" where
  "onBlockStart i p =
     (if state p \<noteq> processing then p else p\<lparr>renderer := createBlock i (renderer p)\<rparr>)"

definition onBlockUpdate ::
  "platform \<Rightarrow> blockId \<Rightarrow> string \<Rightarrow> StreamingMarkdownParser \<Rightarrow> StreamingMarkdownParser" where
  "onBlockUpdate pf i content p =
     (if state p \<noteq> processing then p
      else p\<lparr>renderer := updateBlock i (html (parse (marked_parse pf) content)) (renderer p)\<rparr>)"

text \<open>
  \<^verbatim>\<open>container?.innerText || ""\<close>: the empty string when the map has no element for the
  identifier, and when the element's text is empty.
\<close>

definition finalMD :: "platform \<Rightarrow> blockId \<Rightarrow> HTMLRenderer \<Rightarrow> string" where
  "finalMD pf i r =
     (case blocks r i of
        None \<Rightarrow> []
      | Some a \<Rightarrow>
          (case element_at r a of
             None \<Rightarrow> []
           | Some container \<Rightarrow> (if innerText pf container = [] then [] else innerText pf container)))"

definition onBlockEnd ::
  "platform \<Rightarrow> blockId \<Rightarrow> StreamingMarkdownParser \<Rightarrow> StreamingMarkdownParser" where
  "onBlockEnd pf i p =
     (if state p \<noteq> processing then p
      else p\<lparr>renderer :=
               finalizeBlock i (isComplete (parse (marked_parse pf) (finalMD pf i (renderer p))))
                 (renderer p)\<rparr>)"

definition onEnd :: "StreamingMarkdownParser \<Rightarrow> StreamingMarkdownParser" where
  "onEnd p = p\<lparr>state := idle\<rparr>"

text \<open>
  Calling a listener with an emission. \<^verbatim>\<open>hookup\<close> registers each handler for its own
  event, whose payload has the handler's parameter type; the other combinations do not
  type-check in the source and are left without effect.
\<close>

fun call_listener ::
  "platform \<Rightarrow> listener \<Rightarrow> event \<Rightarrow> StreamingMarkdownParser \<Rightarrow> StreamingMarkdownParser" where
  "call_listener pf OnBlockStart (BlockStart i) p = onBlockStart i p"
| "call_listener pf OnBlockUpdate (BlockUpdate i content) p = onBlockUpdate pf i content p"
| "call_listener pf OnBlockEnd (BlockEnd i) p = onBlockEnd pf i p"
| "call_listener pf OnEnd e p = onEnd p"
| "call_listener pf fn e p = p"

definition hookup :: "StreamingMarkdownParser \<Rightarrow> StreamingMarkdownParser" where
  "hookup p =
     p\<lparr>state := processing,
       chunker :=
         on stream_end OnEnd
           (on block_end OnBlockEnd
              (on block_update OnBlockUpdate
                 (on block_start OnBlockStart (chunker p))))\<rparr>"

definition new_parser :: StreamingMarkdownParser where
  "new_parser = hookup \<lparr>chunker = new_chunker, renderer = new_renderer, state = idle\<rparr>"

text \<open>
  The handlers act on the orchestrator and never on its chunker, so the chunker runs on
  its own state beside the orchestrator's and is stored back when it returns.
\<close>

definition parser_write :: "platform \<Rightarrow> string \<Rightarrow> StreamingMarkdownParser \<Rightarrow> StreamingMarkdownParser" where
  "parser_write pf chunk p =
     (if state p = processing
      then (case chunker_write (call_listener pf) chunk (chunker p, p) of
              (c, p') \<Rightarrow> p'\<lparr>chunker := c\<rparr>)
      else p)"

definition parser_end :: "platform \<Rightarrow> StreamingMarkdownParser \<Rightarrow> StreamingMarkdownParser" where
  "parser_end pf p =
     (if state p = processing
      then (case chunker_end (call_listener pf) (chunker p, p) of
              (c, p') \<Rightarrow> p'\<lparr>chunker := c\<rparr>)
      else p)"

definition pause :: "StreamingMarkdownParser \<Rightarrow> StreamingMarkdownParser" where
  "pause p = (if state p = processing then p\<lparr>state := paused\<rparr> else p)"

definition resume :: "StreamingMarkdownParser \<Rightarrow> StreamingMarkdownParser" where
  "resume p = (if state p = paused then p\<lparr>state := processing\<rparr> else p)"

definition destroy :: "StreamingMarkdownParser \<Rightarrow> StreamingMarkdownParser" where
  "destroy p =
     p\<lparr>state := destroyed,
       renderer := clear (renderer p),
       chunker :=
         off stream_end OnEnd
           (off block_end OnBlockEnd
              (off block_update OnBlockUpdate
                 (off block_start OnBlockStart (chunker p))))\<rparr>"

definition getState :: "StreamingMarkdownParser \<Rightarrow> session_state" where
  "getState p = state p"

text \<open>The calls of the public control surface, and a caller making them in sequence.\<close>

datatype control = Write string | End | Pause | Resume | Destroy

fun control_step ::
  "platform \<Rightarrow> control \<Rightarrow> StreamingMarkdownParser \<Rightarrow> StreamingMarkdownParser" where
  "control_step pf (Write chunk) p = parser_write pf chunk p"
| "control_step pf End p = parser_end pf p"
| "control_step pf Pause p = pause p"
| "control_step pf Resume p = resume p"
| "control_step pf Destroy p = destroy p"

definition run ::
  "platform \<Rightarrow> control list \<Rightarrow> StreamingMarkdownParser \<Rightarrow> StreamingMarkdownParser" where
  "run pf cs p = fold (control_step pf) cs p"

section \<open>Notions for stating the properties\<close>

subsection \<open>Fences and segments of a text\<close>

text \<open>
  The number of non-overlapping occurrences of the fence in a text, as a count: find the
  leftmost occurrence, count it, and go on behind it.
\<close>

function fence_count :: "string \<Rightarrow> nat" where
  "fence_count s =
     (case indexOf s fence of
        None \<Rightarrow> 0
      | Some i \<Rightarrow> Suc (fence_count (drop (i + 3) s)))"
  by pat_completeness auto

termination
proof (relation "measure length")
  show "wf (measure length)" by simp
next
  fix s i
  assume "indexOf s fence = Some i"
  then have "i + 3 \<le> length s"
    using indexOf_bound [of s fence i] by (simp add: fence_def)
  then show "(drop (i + 3) s, s) \<in> measure length" by simp
qed

declare fence_count.simps [simp del]

text \<open>
  The same number without a direction of search: a fence stands at a position, a set of
  positions is apart when its fences do not overlap, and the count is the greatest number
  of fences that stand apart (lemmas \<open>fence_count_upper\<close> and \<open>fence_count_attained\<close>).
\<close>

definition fence_at :: "string \<Rightarrow> nat \<Rightarrow> bool" where
  "fence_at s i = (take 3 (drop i s) = fence)"

definition apart :: "nat set \<Rightarrow> bool" where
  "apart S = (\<forall>i\<in>S. \<forall>j\<in>S. i < j \<longrightarrow> i + 3 \<le> j)"

text \<open>
  The segmentation of a text: the texts before each blank-line boundary, found from the
  left as the loop of \<^verbatim>\<open>write\<close> finds them, and the text left behind the last one.
\<close>

function segments :: "string \<Rightarrow> string list \<times> string" where
  "segments data =
     (case indexOf data boundary of
        None \<Rightarrow> ([], data)
      | Some idx \<Rightarrow>
          (case segments (drop (idx + 2) data) of (ps, rest) \<Rightarrow> (take idx data # ps, rest)))"
  by pat_completeness auto

termination
proof (relation "measure length")
  show "wf (measure length)" by simp
next
  fix data idx
  assume "indexOf data boundary = Some idx"
  then have "idx + 2 \<le> length data"
    using indexOf_bound [of data boundary idx] by (simp add: boundary_def)
  then show "(drop (idx + 2) data, data) \<in> measure length" by simp
qed

declare segments.simps [simp del]

subsection \<open>The emissions of the chunker as lists\<close>

text \<open>
  Delivering a list of emissions: each one is passed, in order, to the listeners
  registered for its event.
\<close>

definition deliver ::
  "('l \<Rightarrow> event \<Rightarrow> 's \<Rightarrow> 's) \<Rightarrow> (ChunkerEvent \<Rightarrow> 'l list) \<Rightarrow> event list \<Rightarrow> 's \<Rightarrow> 's" where
  "deliver call ls es s = fold (\<lambda>e. fold (\<lambda>fn. call fn e) (ls (event_name e))) es s"

text \<open>
  The emissions of the chunker's operations, as lists, from the pair of
  \<^verbatim>\<open>currentBlockId\<close> and \<^verbatim>\<open>nextBlockId\<close>; the lemmas below show that the
  operations deliver exactly these, whatever the listeners do.
\<close>

fun update_events :: "blockId option \<Rightarrow> nat \<Rightarrow> string \<Rightarrow> event list" where
  "update_events None n t = [BlockStart n, BlockUpdate n t]"
| "update_events (Some k) n t = [BlockUpdate k t]"

fun end_events :: "blockId option \<Rightarrow> event list" where
  "end_events None = []"
| "end_events (Some k) = [BlockEnd k]"

fun opened :: "blockId option \<times> nat \<Rightarrow> blockId option \<times> nat" where
  "opened (None, n) = (Some n, n + 1)"
| "opened (Some k, n) = (Some k, n)"

fun loop_events :: "blockId option \<times> nat \<Rightarrow> string list \<Rightarrow> event list" where
  "loop_events (cur, n) [] = []"
| "loop_events (cur, n) (t # ts) =
     update_events cur n t @ end_events (fst (opened (cur, n)))
       @ loop_events (None, snd (opened (cur, n))) ts"

fun loop_ids :: "blockId option \<times> nat \<Rightarrow> string list \<Rightarrow> blockId option \<times> nat" where
  "loop_ids (cur, n) [] = (cur, n)"
| "loop_ids (cur, n) (t # ts) = loop_ids (None, snd (opened (cur, n))) ts"

definition ids :: "'l MarkdownStreamChunker \<Rightarrow> blockId option \<times> nat" where
  "ids c = (currentBlockId c, nextBlockId c)"

definition set_ids :: "blockId option \<times> nat \<Rightarrow> 'l MarkdownStreamChunker \<Rightarrow> 'l MarkdownStreamChunker" where
  "set_ids cn c = c\<lparr>currentBlockId := fst cn, nextBlockId := snd cn\<rparr>"

definition write_events :: "string \<Rightarrow> blockId option \<times> nat \<Rightarrow> string \<Rightarrow> event list" where
  "write_events buf cn chunk =
     (case segments (buf @ chunk) of (ts, rest) \<Rightarrow>
        loop_events cn ts
          @ (if rest = [] then []
             else update_events (fst (loop_ids cn ts)) (snd (loop_ids cn ts)) rest))"

definition write_ids :: "string \<Rightarrow> blockId option \<times> nat \<Rightarrow> string \<Rightarrow> blockId option \<times> nat" where
  "write_ids buf cn chunk =
     (case segments (buf @ chunk) of (ts, rest) \<Rightarrow>
        (if rest = [] then loop_ids cn ts else opened (loop_ids cn ts)))"

definition finish_events :: "string \<Rightarrow> blockId option \<times> nat \<Rightarrow> event list" where
  "finish_events buf cn =
     (if buf = [] then [] else update_events (fst cn) (snd cn) buf @ end_events (fst (opened cn)))
       @ [StreamEnd]"

definition finish_ids :: "string \<Rightarrow> blockId option \<times> nat \<Rightarrow> blockId option \<times> nat" where
  "finish_ids buf cn = (if buf = [] then cn else (None, snd (opened cn)))"

subsection \<open>States and calls of the orchestrator\<close>

text \<open>The listeners as \<^verbatim>\<open>hookup\<close> leaves them: each handler under its own event.\<close>

definition hooked :: "ChunkerEvent \<Rightarrow> listener list" where
  "hooked ev =
     (case ev of block_start \<Rightarrow> [OnBlockStart] | block_update \<Rightarrow> [OnBlockUpdate]
      | block_end \<Rightarrow> [OnBlockEnd] | stream_end \<Rightarrow> [OnEnd])"

text \<open>
  Every state the constructor and the public calls can reach is wired: its chunker holds
  the listeners of \<^verbatim>\<open>hookup\<close>, or none once it is destroyed.
\<close>

definition wired :: "StreamingMarkdownParser \<Rightarrow> bool" where
  "wired p = (listeners (chunker p) = (if state p = destroyed then (\<lambda>ev. []) else hooked))"

text \<open>The calls that feed or end the stream.\<close>

fun is_input :: "control \<Rightarrow> bool" where
  "is_input (Write chunk) = True"
| "is_input End = True"
| "is_input c = False"

text \<open>A platform to run examples on: the text of an element is its markup.\<close>

definition example_platform :: platform where
  "example_platform = \<lparr>marked_parse = (\<lambda>md. ''<p>'' @ md @ ''</p>''), innerText = (\<lambda>el. innerHTML el)\<rparr>"

text \<open>
  A platform whose rendering drops the fence line, as a renderer of fenced code does: the
  text of the element then has no fence where the markdown had one.
\<close>

definition stripping_platform :: platform where
  "stripping_platform =
     \<lparr>marked_parse = (\<lambda>md. ''<pre><code>'' @ drop 6 md @ ''</code></pre>''),
      innerText = (\<lambda>el. take (length (innerHTML el) - 24) (drop 11 (innerHTML el)))\<rparr>"

subsection \<open>Reading a log of emissions\<close>

text \<open>
  The text of the last update a block received, the identifiers of the blocks started and
  of the blocks closed, in the order of their events.
\<close>

fun update_for :: "blockId \<Rightarrow> event \<Rightarrow> string option" where
  "update_for i (BlockUpdate j t) = (if j = i then Some t else None)"
| "update_for i e = None"

fun last_update :: "event list \<Rightarrow> blockId \<Rightarrow> string option" where
  "last_update [] i = None"
| "last_update (e # es) i =
     (case last_update es i of Some t \<Rightarrow> Some t | None \<Rightarrow> update_for i e)"

fun start_ids :: "event list \<Rightarrow> blockId list" where
  "start_ids [] = []"
| "start_ids (BlockStart i # es) = i # start_ids es"
| "start_ids (e # es) = start_ids es"

fun end_ids :: "event list \<Rightarrow> blockId list" where
  "end_ids [] = []"
| "end_ids (BlockEnd i # es) = i # end_ids es"
| "end_ids (e # es) = end_ids es"

text \<open>
  A monitor of the protocol between the chunker and its listeners: a block is started with
  an identifier above all earlier ones while no block is open, receives at least one
  update, and is closed; updates and the close carry the identifier of the open block; the
  stream ends while no block is open. Its state is the open block, whether it has received
  an update, and the highest identifier seen.
\<close>

type_synonym monitor = "blockId option \<times> bool \<times> nat"

fun monitor_step :: "event \<Rightarrow> monitor \<Rightarrow> monitor option" where
  "monitor_step (BlockStart i) (None, u, hi) = (if hi < i then Some (Some i, False, i) else None)"
| "monitor_step (BlockUpdate i t) (Some k, u, hi) = (if i = k then Some (Some k, True, hi) else None)"
| "monitor_step (BlockEnd i) (Some k, True, hi) = (if i = k then Some (None, False, hi) else None)"
| "monitor_step StreamEnd (None, u, hi) = Some (None, u, hi)"
| "monitor_step e m = None"

fun monitor_run :: "event list \<Rightarrow> monitor option \<Rightarrow> monitor option" where
  "monitor_run [] m = m"
| "monitor_run (e # es) m = monitor_run es (Option.bind m (monitor_step e))"

definition well_formed :: "event list \<Rightarrow> bool" where
  "well_formed tr = (monitor_run tr (Some (None, False, 0)) \<noteq> None)"

text \<open>
  The block the next text goes to: the open one, or the one the counter will name. The
  counter is one above the identifier of an open block.
\<close>

fun target :: "blockId option \<times> nat \<Rightarrow> blockId" where
  "target (None, n) = n"
| "target (Some k, n) = k"

fun coherent :: "blockId option \<times> nat \<Rightarrow> bool" where
  "coherent (None, n) = (1 \<le> n)"
| "coherent (Some k, n) = (n = Suc k \<and> 1 \<le> k)"

fun monitor_of :: "blockId option \<times> nat \<Rightarrow> monitor" where
  "monitor_of (None, n) = (None, False, n - 1)"
| "monitor_of (Some k, n) = (Some k, True, n - 1)"

subsection \<open>The blocks of a stream\<close>

text \<open>
  The texts of the blocks of a stream \<open>w\<close>: its segments, and what is left behind the last
  boundary when that is not empty. \<open>ids_after w\<close> is the pair of the open block and the
  counter that the chunker holds after \<open>w\<close> was written to a new chunker.
\<close>

definition block_texts :: "string \<Rightarrow> string list" where
  "block_texts w = fst (segments w) @ (if snd (segments w) = [] then [] else [snd (segments w)])"

definition ids_after :: "string \<Rightarrow> blockId option \<times> nat" where
  "ids_after w =
     (if snd (segments w) = [] then (None, Suc (length (fst (segments w))))
      else (Some (Suc (length (fst (segments w)))), Suc (Suc (length (fst (segments w))))))"

fun writes_events :: "string list \<Rightarrow> string \<Rightarrow> blockId option \<times> nat \<Rightarrow> event list" where
  "writes_events [] buf cn = []"
| "writes_events (f # fs) buf cn =
     write_events buf cn f @ writes_events fs (snd (segments (buf @ f))) (write_ids buf cn f)"

text \<open>
  Two invariants of the emissions so far: their structure, for the chunker's pair of open
  block and counter, and the texts the last updates carry.
\<close>

definition structured :: "blockId option \<times> nat \<Rightarrow> event list \<Rightarrow> bool" where
  "structured cn tr =
     (coherent cn \<and> start_ids tr = [1..<snd cn] \<and> end_ids tr = [1..<target cn]
      \<and> monitor_run tr (Some (None, False, 0)) = Some (monitor_of cn)
      \<and> StreamEnd \<notin> set tr)"

definition carries :: "string list \<Rightarrow> event list \<Rightarrow> bool" where
  "carries txts tr =
     (\<forall>i. last_update tr i = (if 1 \<le> i \<and> i \<le> length txts then Some (txts ! (i - 1)) else None))"

subsection \<open>A chunker under observation\<close>

text \<open>
  A listener that appends every emission it receives to a log, and a new chunker with one
  such listener on each of its four events. \<open>written fs\<close> is the chunker and the log after
  the fragments \<open>fs\<close> were written in order, \<open>ended fs\<close> after \<^verbatim>\<open>end()\<close> was then called.
\<close>

definition observe :: "'l \<Rightarrow> event \<Rightarrow> event list \<Rightarrow> event list" where
  "observe fn e tr = tr @ [e]"

definition observed_chunker :: "unit MarkdownStreamChunker" where
  "observed_chunker =
     on stream_end () (on block_end () (on block_update () (on block_start () new_chunker)))"

definition written :: "string list \<Rightarrow> unit MarkdownStreamChunker \<times> event list" where
  "written fs = fold (chunker_write observe) fs (observed_chunker, [])"

definition ended :: "string list \<Rightarrow> unit MarkdownStreamChunker \<times> event list" where
  "ended fs = chunker_end observe (written fs)"

text \<open>
  The last update of each block, in the order of the block identifiers; the same for the
  closed blocks; and the texts joined by a separator.
\<close>

definition final_texts :: "event list \<Rightarrow> string list" where
  "final_texts tr = List.map_filter (last_update tr) (sort (remdups (start_ids tr)))"

definition closed_texts :: "event list \<Rightarrow> string list" where
  "closed_texts tr = List.map_filter (last_update tr) (end_ids tr)"

fun join :: "string \<Rightarrow> string list \<Rightarrow> string" where
  "join sep [] = []"
| "join sep [t] = t"
| "join sep (t # u # ts) = t @ sep @ join sep (u # ts)"

text \<open>
  What \<^verbatim>\<open>write(chunk)\<close> emits after the fragments \<open>fs\<close> were written, and what \<^verbatim>\<open>end()\<close>
  emits then: the log of the call, started empty.
\<close>

definition emitted_by_write :: "string list \<Rightarrow> string \<Rightarrow> event list" where
  "emitted_by_write fs chunk = snd (chunker_write observe chunk (fst (written fs), []))"

definition emitted_by_end :: "string list \<Rightarrow> event list" where
  "emitted_by_end fs = snd (chunker_end observe (fst (written fs), []))"

subsection \<open>The renderer under a log\<close>

text \<open>
  What the handler of an emission does to the renderer while the orchestrator is in the
  processing state.
\<close>

fun render_event :: "platform \<Rightarrow> event \<Rightarrow> HTMLRenderer \<Rightarrow> HTMLRenderer" where
  "render_event pf (BlockStart i) r = createBlock i r"
| "render_event pf (BlockUpdate i content) r =
     updateBlock i (html (parse (marked_parse pf) content)) r"
| "render_event pf (BlockEnd i) r =
     finalizeBlock i (isComplete (parse (marked_parse pf) (finalMD pf i r))) r"
| "render_event pf StreamEnd r = r"

subsection \<open>Reading an identifier back\<close>

text \<open>The number a string of decimal digits stands for.\<close>

definition digits_value :: "string \<Rightarrow> nat" where
  "digits_value s = foldl (\<lambda>a c. 10 * a + (of_char c - 48)) 0 s"

section \<open>Searching in strings\<close>

lemma indexOf_hit: "prefix pat s \<Longrightarrow> indexOf s pat = Some 0"
  by (cases s) simp_all

lemma indexOf_split:
  "indexOf s pat = Some i \<Longrightarrow> s = take i s @ pat @ drop (i + length pat) s"
proof (induction s arbitrary: i)
  case Nil
  then show ?case by (simp split: if_splits)
next
  case (Cons x xs)
  show ?case
  proof (cases "prefix pat (x # xs)")
    case True
    with Cons.prems have "i = 0" by simp
    moreover from True obtain zs where "x # xs = pat @ zs" by (auto simp: prefix_def)
    ultimately show ?thesis by simp
  next
    case False
    with Cons.prems obtain j where j: "indexOf xs pat = Some j" "i = Suc j" by auto
    from Cons.IH [OF j(1)] have "xs = take j xs @ pat @ drop (j + length pat) xs" .
    then have "x # xs = (x # take j xs) @ pat @ drop (j + length pat) xs" by simp
    with j(2) show ?thesis by simp
  qed
qed

lemma indexOf_append:
  "indexOf s pat = Some i \<Longrightarrow> indexOf (s @ t) pat = Some i"
proof (induction s arbitrary: i)
  case Nil
  then show ?case by (cases t) (simp_all split: if_splits)
next
  case (Cons x xs)
  show ?case
  proof (cases "prefix pat (x # xs)")
    case True
    then have "prefix pat ((x # xs) @ t)" by (rule prefix_prefix)
    with True Cons.prems show ?thesis by simp
  next
    case False
    with Cons.prems obtain j where j: "indexOf xs pat = Some j" "i = Suc j" by auto
    from j(1) have "j + length pat \<le> length xs" by (rule indexOf_bound)
    have np: "\<not> prefix pat (x # xs @ t)"
    proof
      assume p: "prefix pat (x # xs @ t)"
      from j(1) have "length pat \<le> length (x # xs)" using indexOf_bound [of xs pat j] by simp
      with p have "prefix pat (x # xs)"
        by (metis append_Cons prefix_length_prefix prefixI)
      with False show False by simp
    qed
    from Cons.IH [OF j(1)] np j(2) show ?thesis by simp
  qed
qed

lemma indexOf_exists:
  "k \<le> length s \<Longrightarrow> prefix pat (drop k s) \<Longrightarrow> \<exists>idx\<le>k. indexOf s pat = Some idx"
proof (induction s arbitrary: k)
  case Nil
  then show ?case by simp
next
  case (Cons x xs)
  show ?case
  proof (cases "prefix pat (x # xs)")
    case True
    then show ?thesis by simp
  next
    case False
    with Cons.prems obtain j where k: "k = Suc j" by (cases k) auto
    with Cons.prems have "j \<le> length xs" "prefix pat (drop j xs)" by simp_all
    from Cons.IH [OF this] obtain idx where "idx \<le> j" "indexOf xs pat = Some idx" by blast
    with False k show ?thesis by simp
  qed
qed

section \<open>Identifiers as strings\<close>

lemma digit_char_value: "d < 10 \<Longrightarrow> of_char (digit_char d) - 48 = d"
  by (simp add: digit_char_def)

lemma digits_value_digits: "digits_value (digits n) = n"
proof (induction n rule: digits.induct)
  case (1 n)
  show ?case
  proof (cases "n < 10")
    case True
    then show ?thesis
      by (subst digits.simps) (simp add: digits_value_def digit_char_value)
  next
    case False
    have "digits_value (digits n) = 10 * digits_value (digits (n div 10)) + (of_char (digit_char (n mod 10)) - 48)"
      using False by (subst digits.simps) (simp add: digits_value_def)
    also have "\<dots> = 10 * (n div 10) + n mod 10"
      using "1.IH" [OF False] by (simp add: digit_char_value)
    finally show ?thesis by simp
  qed
qed

lemma inj_blockId_string: "inj blockId_string"
proof (rule injI)
  fix m n
  assume "blockId_string m = blockId_string n"
  then have "digits m = digits n" by (simp add: blockId_string_def)
  then have "digits_value (digits m) = digits_value (digits n)" by simp
  then show "m = n" by (simp add: digits_value_digits)
qed

section \<open>The number of fences in a text, and \<open>parse\<close>\<close>

lemma indexOf_fence_short: "length s < 3 \<Longrightarrow> indexOf s fence = None"
  using indexOf_bound [of s fence] by (cases "indexOf s fence") (auto simp: fence_def)

lemma fence_count_hit:
  assumes "prefix fence s"
  shows "fence_count s = Suc (fence_count (drop 3 s))"
proof -
  from assms have "indexOf s fence = Some 0" by (rule indexOf_hit)
  then show ?thesis by (subst fence_count.simps) simp
qed

lemma fence_count_skip:
  assumes "\<not> prefix fence (x # xs)"
  shows "fence_count (x # xs) = fence_count xs"
proof (cases "indexOf xs fence")
  case None
  with assms have "indexOf (x # xs) fence = None" by simp
  then have "fence_count (x # xs) = 0" by (subst fence_count.simps) simp
  moreover from None have "fence_count xs = 0" by (subst fence_count.simps) simp
  ultimately show ?thesis by simp
next
  case (Some j)
  with assms have "indexOf (x # xs) fence = Some (Suc j)" by simp
  then have "fence_count (x # xs) = Suc (fence_count (drop (Suc j + 3) (x # xs)))"
    by (subst fence_count.simps) simp
  moreover from Some have "fence_count xs = Suc (fence_count (drop (j + 3) xs))"
    by (subst fence_count.simps) simp
  moreover have "drop (Suc j + 3) (x # xs) = drop (j + 3) xs"
    by (simp only: add_Suc drop_Suc_Cons)
  ultimately show ?thesis by simp
qed

lemma fence_count_short: "length s < 3 \<Longrightarrow> fence_count s = 0"
  by (subst fence_count.simps) (simp add: indexOf_fence_short)

text \<open>The matches of the regular expression are as many as the count finds.\<close>

lemma fence_matches_count: "length (fence_matches s) = fence_count s"
proof (induction s rule: fence_matches.induct)
  case (1 a b c rest)
  show ?case
  proof (cases "[a, b, c] = fence")
    case True
    then have "prefix fence (a # b # c # rest)" by (auto simp: fence_def)
    then have "fence_count (a # b # c # rest) = Suc (fence_count rest)"
      using fence_count_hit [of "a # b # c # rest"] by simp
    with True 1 show ?thesis by simp
  next
    case False
    then have np: "\<not> prefix fence (a # b # c # rest)" by (auto simp: fence_def)
    have "fence_count (a # b # c # rest) = fence_count (b # c # rest)"
      using np by (rule fence_count_skip)
    with False 1 show ?thesis by simp
  qed
qed (simp_all add: fence_count_short)

lemma fence_at_bound: "fence_at s i \<Longrightarrow> i + 3 \<le> length s"
proof -
  assume "fence_at s i"
  then have "length (take 3 (drop i s)) = 3" by (simp add: fence_at_def fence_def)
  then show ?thesis by auto
qed

lemma fence_at_prefix: "fence_at s i \<longleftrightarrow> i + 3 \<le> length s \<and> prefix fence (drop i s)"
proof
  assume a: "fence_at s i"
  then have "fence @ drop 3 (drop i s) = drop i s"
    using append_take_drop_id [of 3 "drop i s"] by (simp add: fence_at_def)
  then have "prefix fence (drop i s)" by (rule prefixI [OF sym])
  with fence_at_bound [OF a] show "i + 3 \<le> length s \<and> prefix fence (drop i s)" by simp
next
  assume "i + 3 \<le> length s \<and> prefix fence (drop i s)"
  then obtain zs where "drop i s = fence @ zs" by (auto simp: prefix_def)
  then show "fence_at s i" by (simp add: fence_at_def fence_def)
qed

lemma indexOf_None_fence: "indexOf s fence = None \<Longrightarrow> \<not> fence_at s i"
proof
  assume n: "indexOf s fence = None" and a: "fence_at s i"
  then have "i \<le> length s" "prefix fence (drop i s)" by (simp_all add: fence_at_prefix)
  from indexOf_exists [OF this] n show False by simp
qed

lemma indexOf_Some_fence:
  assumes "indexOf s fence = Some idx"
  shows "fence_at s idx" and "fence_at s k \<Longrightarrow> idx \<le> k"
proof -
  define A where "A = take idx s"
  define B where "B = drop (idx + length fence) s"
  have eq: "s = A @ fence @ B" unfolding A_def B_def using assms by (rule indexOf_split)
  have "idx \<le> length s" using indexOf_bound [OF assms] by simp
  then have l: "length A = idx" by (simp add: A_def)
  have "drop idx s = fence @ B" by (subst eq) (simp add: l)
  then show "fence_at s idx" by (simp add: fence_at_def fence_def)
next
  assume a: "fence_at s k"
  then have "k \<le> length s" "prefix fence (drop k s)" by (simp_all add: fence_at_prefix)
  from indexOf_exists [OF this] assms show "idx \<le> k" by auto
qed

lemma fence_at_drop: "fence_at (drop n s) j \<longleftrightarrow> fence_at s (n + j)"
  by (simp add: fence_at_def add.commute)

lemma fence_count_Some: "indexOf s fence = Some idx \<Longrightarrow> fence_count s = Suc (fence_count (drop (idx + 3) s))"
  by (subst fence_count.simps) simp

lemma fence_count_None: "indexOf s fence = None \<Longrightarrow> fence_count s = 0"
  by (subst fence_count.simps) simp

lemma fence_count_upper:
  "finite S \<Longrightarrow> \<forall>i\<in>S. fence_at s i \<Longrightarrow> apart S \<Longrightarrow> card S \<le> fence_count s"
proof (induction s arbitrary: S rule: fence_count.induct)
  case (1 s)
  show ?case
  proof (cases "indexOf s fence")
    case None
    then have "\<not> fence_at s i" for i by (rule indexOf_None_fence)
    with "1.prems"(2) have "S = {}" by auto
    then show ?thesis by simp
  next
    case (Some idx)
    show ?thesis
    proof (cases "S = {}")
      case True
      then show ?thesis by simp
    next
      case False
      define m where "m = Min S"
      define c where "c = idx + 3"
      define T where "T = (\<lambda>j. j - c) ` (S - {m})"
      have m: "m \<in> S" "\<And>j. j \<in> S \<Longrightarrow> m \<le> j"
        using "1.prems"(1) False by (simp_all add: m_def)
      from "1.prems"(2) m(1) have "fence_at s m" by simp
      then have "idx \<le> m" by (rule indexOf_Some_fence(2) [OF Some])
      from "1.prems"(3) have sep: "\<And>i j. i \<in> S \<Longrightarrow> j \<in> S \<Longrightarrow> i < j \<Longrightarrow> i + 3 \<le> j"
        by (simp add: apart_def)
      have far: "c \<le> j" if "j \<in> S - {m}" for j
      proof -
        from that m(2) [of j] have "m < j" "j \<in> S" by auto
        with sep [OF m(1)] have "m + 3 \<le> j" by simp
        with \<open>idx \<le> m\<close> show ?thesis by (simp add: c_def)
      qed
      have inj: "inj_on (\<lambda>j. j - c) (S - {m})"
      proof (rule inj_onI)
        fix i j assume "i \<in> S - {m}" "j \<in> S - {m}" "i - c = j - c"
        with far [of i] far [of j] show "i = j" by linarith
      qed
      have fin: "finite T" using "1.prems"(1) by (simp add: T_def)
      have at: "\<forall>t\<in>T. fence_at (drop (idx + 3) s) t"
      proof
        fix t assume "t \<in> T"
        then obtain j where j: "j \<in> S - {m}" "t = j - c" by (auto simp: T_def)
        with far [OF j(1)] have "idx + 3 + t = j" by (simp add: c_def)
        moreover from j(1) "1.prems"(2) have "fence_at s j" by simp
        ultimately show "fence_at (drop (idx + 3) s) t"
          by (simp only: fence_at_drop)
      qed
      have ap: "apart T"
        unfolding apart_def
      proof (intro ballI impI)
        fix t u assume "t \<in> T" "u \<in> T" "t < u"
        then obtain i j where ij: "i \<in> S - {m}" "t = i - c" "j \<in> S - {m}" "u = j - c"
          by (auto simp: T_def)
        with \<open>t < u\<close> far [OF ij(1)] far [OF ij(3)] have "i < j" by linarith
        moreover from ij have "i \<in> S" "j \<in> S" by simp_all
        ultimately have "i + 3 \<le> j" by (intro sep)
        with ij far [OF ij(1)] show "t + 3 \<le> u" by linarith
      qed
      have "card T \<le> fence_count (drop (idx + 3) s)"
        using "1.IH" [OF Some fin at ap] .
      moreover have "card T = card (S - {m})" unfolding T_def using inj by (rule card_image)
      moreover have "card S = Suc (card (S - {m}))"
        using "1.prems"(1) m(1) by (rule card.remove)
      ultimately show ?thesis by (simp add: fence_count_Some [OF Some])
    qed
  qed
qed

lemma fence_count_attained:
  "\<exists>S. finite S \<and> (\<forall>i\<in>S. fence_at s i) \<and> apart S \<and> card S = fence_count s"
proof (induction s rule: fence_count.induct)
  case (1 s)
  show ?case
  proof (cases "indexOf s fence")
    case None
    have "finite ({}::nat set) \<and> (\<forall>i\<in>{}. fence_at s i) \<and> apart {} \<and> card ({}::nat set) = fence_count s"
      by (simp add: apart_def fence_count_None [OF None])
    then show ?thesis by blast
  next
    case (Some idx)
    from "1.IH" [OF Some] obtain T where T: "finite T" "\<forall>t\<in>T. fence_at (drop (idx + 3) s) t"
      "apart T" "card T = fence_count (drop (idx + 3) s)" by blast
    define S where "S = insert idx ((\<lambda>t. idx + 3 + t) ` T)"
    have inj: "inj_on (\<lambda>t. idx + 3 + t) T" by (rule inj_onI) simp
    have notin: "idx \<notin> (\<lambda>t. idx + 3 + t) ` T" by auto
    have "finite S" using T(1) by (simp add: S_def)
    moreover have "\<forall>i\<in>S. fence_at s i"
      using T(2) indexOf_Some_fence(1) [OF Some] by (auto simp: S_def fence_at_drop)
    moreover have "apart S"
      unfolding apart_def
    proof (intro ballI impI)
      fix i j assume ij: "i \<in> S" "j \<in> S" "i < j"
      show "i + 3 \<le> j"
      proof (cases "i = idx")
        case True
        with ij obtain t where "j = idx + 3 + t" by (auto simp: S_def)
        with True show ?thesis by simp
      next
        case False
        with ij obtain t where t: "t \<in> T" "i = idx + 3 + t" by (auto simp: S_def)
        with ij have "j \<noteq> idx" by auto
        with ij obtain u where u: "u \<in> T" "j = idx + 3 + u" by (auto simp: S_def)
        with t ij have "t < u" by simp
        with T(3) t(1) u(1) have "t + 3 \<le> u" by (auto simp: apart_def)
        with t u show ?thesis by simp
      qed
    qed
    moreover have "card S = fence_count s"
      using T(1,4) notin by (simp add: S_def card_image [OF inj] fence_count_Some [OF Some])
    ultimately show ?thesis by blast
  qed
qed

text \<open>
  Claim C6. The completeness flag of \<open>parse\<close> is a function of the text alone: it is true
  exactly when the number of non-overlapping fences in the text is even, whatever
  \<^verbatim>\<open>marked.parse\<close> returns, so that two calls on the same text agree. That number is the
  count from the left, and it is the greatest number of fences of the text that stand
  apart. The text \<^verbatim>\<open>```js\ncode\<close>, with its one unmatched fence, is not complete.
\<close>

theorem parse_isComplete_iff_even_fences:
  "isComplete (parse mp text) = even (fence_count text)
   \<and> (\<forall>S. finite S \<and> (\<forall>i\<in>S. fence_at text i) \<and> apart S \<longrightarrow> card S \<le> fence_count text)
   \<and> (\<exists>S. finite S \<and> (\<forall>i\<in>S. fence_at text i) \<and> apart S \<and> card S = fence_count text)
   \<and> isComplete (parse mp text) = isComplete (parse mp' text)
   \<and> \<not> isComplete (parse mp (''```js'' @ [newline] @ ''code''))"
proof -
  have eq: "isComplete (parse f t) = even (fence_count t)" for f t
    by (simp add: parse_def match_fences_def Let_def fence_matches_count [symmetric]
        even_iff_mod_2_eq_zero split: list.splits)
  have 1: "\<forall>S. finite S \<and> (\<forall>i\<in>S. fence_at text i) \<and> apart S \<longrightarrow> card S \<le> fence_count text"
    using fence_count_upper by blast
  have 2: "\<exists>S. finite S \<and> (\<forall>i\<in>S. fence_at text i) \<and> apart S \<and> card S = fence_count text"
    by (rule fence_count_attained)
  have 3: "\<not> isComplete (parse mp (''```js'' @ [newline] @ ''code''))"
    by (simp add: parse_def match_fences_def fence_def newline_def)
  from eq [of mp "text"] eq [of mp' "text"] 1 2 3 show ?thesis by blast
qed

theorem parse_isComplete_iff_even_fences_witness:
  "even (fence_count ''```js```'') \<and> \<not> even (fence_count ''a```b'')
   \<and> card {0::nat, 5} \<le> fence_count ''```js```''"
proof -
  note a = parse_isComplete_iff_even_fences [of "\<lambda>s. s" "''```js```''", THEN conjunct1]
  note b = parse_isComplete_iff_even_fences [of "\<lambda>s. s" "''a```b''", THEN conjunct1]
  note c = parse_isComplete_iff_even_fences [of "\<lambda>s. s" "''```js```''",
      THEN conjunct2, THEN conjunct1, rule_format, of "{0, 5}"]
  have x: "isComplete (parse (\<lambda>s. s) ''```js```'')" "\<not> isComplete (parse (\<lambda>s. s) ''a```b'')"
    by (simp_all add: parse_def match_fences_def fence_def)
  have y: "finite {0::nat, 5} \<and> (\<forall>i\<in>{0::nat, 5}. fence_at ''```js```'' i) \<and> apart {0, 5}"
    by (simp add: fence_at_def fence_def apart_def)
  from a b x c [OF y] show ?thesis by simp
qed

section \<open>The chunker delivers its lists of emissions\<close>

lemma deliver_Nil [simp]: "deliver call ls [] s = s"
  by (simp add: deliver_def)

lemma deliver_append [simp]: "deliver call ls (es @ es') s = deliver call ls es' (deliver call ls es s)"
  by (simp add: deliver_def)

lemma emit_eq: "emit call e (c, s) = (c, deliver call (listeners c) [e] s)"
  by (simp add: emit_def deliver_def)

lemma set_ids_same [simp]: "set_ids (ids c) c = c"
  by (simp add: set_ids_def ids_def)

lemma set_ids_simps [simp]:
  "listeners (set_ids cn c) = listeners c"
  "buffer (set_ids cn c) = buffer c"
  "ids (set_ids cn c) = cn"
  "set_ids cn (set_ids cn' c) = set_ids cn c"
  "set_ids cn (c\<lparr>buffer := b\<rparr>) = (set_ids cn c)\<lparr>buffer := b\<rparr>"
  by (simp_all add: set_ids_def ids_def)

lemma loop_Nil [simp]: "loop_ids cn [] = cn" "loop_events cn [] = []"
  by (cases cn; simp)+

lemma emitStart_opens: "currentBlockId (fst (emitStart call cs)) \<noteq> None"
  by (cases cs) (simp add: emitStart_def emit_def split: option.splits)

lemma emitUpdate_eq:
  "emitUpdate call t (c, s) =
     (set_ids (opened (ids c)) c, deliver call (listeners c) (update_events (fst (ids c)) (snd (ids c)) t) s)"
  by (cases "currentBlockId c")
    (simp_all add: emitUpdate_def emitStart_def emit_def deliver_def ids_def set_ids_def)

lemma emitEnd_eq:
  "emitEnd call (c, s) =
     (set_ids (None, snd (ids c)) c, deliver call (listeners c) (end_events (fst (ids c))) s)"
  by (cases "currentBlockId c") (simp_all add: emitEnd_def emit_def deliver_def ids_def set_ids_def)

lemma write_loop_eq:
  "write_loop call data (c, s) =
     (snd (segments data), set_ids (loop_ids (ids c) (fst (segments data))) c,
      deliver call (listeners c) (loop_events (ids c) (fst (segments data))) s)"
proof (induction data arbitrary: c s rule: segments.induct)
  case (1 data)
  show ?case
  proof (cases "indexOf data boundary")
    case None
    then show ?thesis
      by (simp add: write_loop.simps [of call data] segments.simps [of data])
  next
    case (Some idx)
    let ?c1 = "set_ids (None, snd (opened (ids c))) c"
    let ?s1 = "deliver call (listeners c)
        (update_events (fst (ids c)) (snd (ids c)) (take idx data) @ end_events (fst (opened (ids c)))) s"
    let ?rest = "drop (idx + 2) data"
    have step: "emitEnd call (emitUpdate call (take idx data) (c, s)) = (?c1, ?s1)"
      by (simp add: emitUpdate_eq emitEnd_eq)
    have "write_loop call data (c, s) = write_loop call ?rest (?c1, ?s1)"
      using Some step by (simp add: write_loop.simps [of call data])
    also have "\<dots> = (snd (segments ?rest), set_ids (loop_ids (ids ?c1) (fst (segments ?rest))) ?c1,
        deliver call (listeners ?c1) (loop_events (ids ?c1) (fst (segments ?rest))) ?s1)"
      by (rule "1.IH" [OF Some])
    also have "\<dots> = (snd (segments data), set_ids (loop_ids (ids c) (fst (segments data))) c,
        deliver call (listeners c) (loop_events (ids c) (fst (segments data))) s)"
      using Some
      by (cases "ids c"; cases "segments (drop (idx + 2) data)")
        (simp add: segments.simps [of data])
    finally show ?thesis .
  qed
qed

lemma buffer_update_same [simp]: "buffer c = b \<Longrightarrow> c\<lparr>buffer := b\<rparr> = c"
  by (cases c) simp

lemma ids_buffer_update [simp]: "ids (c\<lparr>buffer := b\<rparr>) = ids c"
  by (simp add: ids_def)

lemma chunker_write_eq:
  "chunker_write call chunk (c, s) =
     ((set_ids (write_ids (buffer c) (ids c) chunk) c)\<lparr>buffer := snd (segments (buffer c @ chunk))\<rparr>,
      deliver call (listeners c) (write_events (buffer c) (ids c) chunk) s)"
  by (cases "segments (buffer c @ chunk)")
    (simp add: chunker_write_def write_loop_eq emitUpdate_eq write_events_def write_ids_def)

lemma chunker_end_eq:
  "chunker_end call (c, s) =
     ((set_ids (finish_ids (buffer c) (ids c)) c)\<lparr>buffer := []\<rparr>,
      deliver call (listeners c) (finish_events (buffer c) (ids c)) s)"
  by (simp add: chunker_end_def emitUpdate_eq emitEnd_eq emit_eq finish_events_def finish_ids_def)

section \<open>The orchestrator's life cycle\<close>

lemma call_listener_chunker [simp]: "chunker (call_listener pf fn e p) = chunker p"
  by (cases "(pf, fn, e, p)" rule: call_listener.cases)
    (simp_all add: onBlockStart_def onBlockUpdate_def onBlockEnd_def onEnd_def)

lemma call_listener_state: "state (call_listener pf fn e p) = (if fn = OnEnd then idle else state p)"
  by (cases "(pf, fn, e, p)" rule: call_listener.cases)
    (simp_all add: onBlockStart_def onBlockUpdate_def onBlockEnd_def onEnd_def)

lemma fold_call_chunker [simp]: "chunker (fold (\<lambda>fn. call_listener pf fn e) fns p) = chunker p"
  by (induction fns arbitrary: p) simp_all

lemma deliver_chunker [simp]: "chunker (deliver (call_listener pf) ls es p) = chunker p"
  unfolding deliver_def by (induction es arbitrary: p) simp_all

lemma fold_call_state:
  "state (fold (\<lambda>fn. call_listener pf fn e) fns p) = state p
   \<or> state (fold (\<lambda>fn. call_listener pf fn e) fns p) = idle"
proof (induction fns arbitrary: p)
  case Nil
  then show ?case by simp
next
  case (Cons a fns)
  show ?case
    using Cons.IH [of "call_listener pf a e p"] call_listener_state [of pf a e p]
    by (auto split: if_splits)
qed

lemma deliver_state:
  "state (deliver (call_listener pf) ls es p) = state p
   \<or> state (deliver (call_listener pf) ls es p) = idle"
  unfolding deliver_def
proof (induction es arbitrary: p)
  case Nil
  then show ?case by simp
next
  case (Cons e es)
  show ?case
    using Cons.IH [of "fold (\<lambda>fn. call_listener pf fn e) (ls (event_name e)) p"]
      fold_call_state [of pf e "ls (event_name e)" p]
    by auto
qed

lemma parser_write_eq:
  "parser_write pf chunk p =
     (if state p = processing
      then (deliver (call_listener pf) (listeners (chunker p))
              (write_events (buffer (chunker p)) (ids (chunker p)) chunk) p)
            \<lparr>chunker := (set_ids (write_ids (buffer (chunker p)) (ids (chunker p)) chunk) (chunker p))
                \<lparr>buffer := snd (segments (buffer (chunker p) @ chunk))\<rparr>\<rparr>
      else p)"
  by (simp add: parser_write_def chunker_write_eq)

lemma parser_end_eq:
  "parser_end pf p =
     (if state p = processing
      then (deliver (call_listener pf) (listeners (chunker p))
              (finish_events (buffer (chunker p)) (ids (chunker p))) p)
            \<lparr>chunker := (set_ids (finish_ids (buffer (chunker p)) (ids (chunker p))) (chunker p))
                \<lparr>buffer := []\<rparr>\<rparr>
      else p)"
  by (simp add: parser_end_def chunker_end_eq)

lemma wired_new: "wired new_parser"
  by (auto simp: wired_def new_parser_def hookup_def on_def new_chunker_def hooked_def fun_eq_iff
      split: ChunkerEvent.splits)

lemma wired_step: "wired p \<Longrightarrow> wired (control_step pf c p)"
proof (cases c)
  case (Write chunk)
  assume w: "wired p"
  show ?thesis
  proof (cases "state p = processing")
    case True
    let ?q = "deliver (call_listener pf) (listeners (chunker p))
              (write_events (buffer (chunker p)) (ids (chunker p)) chunk) p"
    have "state ?q = processing \<or> state ?q = idle" using deliver_state [of pf _ _ p] True by metis
    with w True Write show ?thesis by (auto simp: parser_write_eq wired_def)
  next
    case False
    with w Write show ?thesis by (simp add: parser_write_eq)
  qed
next
  case End
  assume w: "wired p"
  show ?thesis
  proof (cases "state p = processing")
    case True
    let ?q = "deliver (call_listener pf) (listeners (chunker p))
              (finish_events (buffer (chunker p)) (ids (chunker p))) p"
    have "state ?q = processing \<or> state ?q = idle" using deliver_state [of pf _ _ p] True by metis
    with w True End show ?thesis by (auto simp: parser_end_eq wired_def)
  next
    case False
    with w End show ?thesis by (simp add: parser_end_eq)
  qed
next
  case Pause
  assume "wired p"
  with Pause show ?thesis by (auto simp: pause_def wired_def)
next
  case Resume
  assume "wired p"
  with Resume show ?thesis by (auto simp: resume_def wired_def)
next
  case Destroy
  assume "wired p"
  with Destroy show ?thesis
    by (auto simp: destroy_def wired_def off_def hooked_def fun_eq_iff split: ChunkerEvent.splits)
qed

lemma wired_run: "wired p \<Longrightarrow> wired (run pf cs p)"
  unfolding run_def by (induction cs arbitrary: p) (simp_all add: wired_step)

lemma paused_step: "state p = paused \<Longrightarrow> is_input c \<Longrightarrow> control_step pf c p = p"
  by (cases c) (simp_all add: parser_write_def parser_end_def)

lemma paused_run: "state p = paused \<Longrightarrow> list_all is_input cs \<Longrightarrow> run pf cs p = p"
  unfolding run_def by (induction cs) (simp_all add: paused_step)

lemma run_append: "run pf (cs @ cs') p = run pf cs' (run pf cs p)"
  by (simp add: run_def)

lemma run_Cons: "run pf (c # cs) p = run pf cs (control_step pf c p)"
  by (simp add: run_def)

text \<open>
  Claim C4. In the paused state \<^verbatim>\<open>write\<close> and \<^verbatim>\<open>end\<close> return the state as it is:
  no listener is called, the chunker with its buffer and the renderer stay as \<^verbatim>\<open>pause\<close>
  found them, and \<^verbatim>\<open>resume\<close> gives back the very state \<^verbatim>\<open>pause\<close> was called in.
  So a session that pauses, makes any such calls and resumes goes on as the session that
  made none of them: what was written while paused is in no block.
\<close>

theorem paused_calls_are_dropped:
  assumes "state p = processing" and "list_all is_input cs"
  shows "parser_write pf f (pause p) = pause p \<and> parser_end pf (pause p) = pause p
    \<and> run pf cs (pause p) = pause p
    \<and> state (pause p) = paused \<and> chunker (pause p) = chunker p \<and> renderer (pause p) = renderer p
    \<and> resume (run pf cs (pause p)) = p
    \<and> run pf (Pause # cs @ Resume # rest) p = run pf rest p"
proof -
  have st: "state (pause p) = paused" using assms(1) by (simp add: pause_def)
  have r: "run pf cs (pause p) = pause p" using st assms(2) by (rule paused_run)
  have undo: "resume (pause p) = p" using assms(1) by (simp add: pause_def resume_def)
  have "run pf (Pause # cs @ Resume # rest) p = run pf rest p"
    by (simp add: run_Cons run_append r undo)
  with st r undo assms(1) show ?thesis
    by (simp add: parser_write_def parser_end_def) (simp add: pause_def)
qed

theorem paused_calls_are_dropped_witness:
  "state (run example_platform [Write ''ab''] new_parser) = processing
   \<and> run example_platform [Pause, Write ''x'', End, Resume, Write ''cd'', End]
         (run example_platform [Write ''ab''] new_parser)
       = run example_platform [Write ''cd'', End] (run example_platform [Write ''ab''] new_parser)"
proof -
  have h: "state (run example_platform [Write ''ab''] new_parser) = processing" by code_simp
  have i: "list_all is_input [Write ''x'', End]" by simp
  from paused_calls_are_dropped [OF h i, of example_platform _ "[Write ''cd'', End]"] h
  show ?thesis by simp
qed

lemma destroyed_step:
  assumes "state d = destroyed" "root (renderer d) = []" "blocks (renderer d) = Map.empty"
    "listeners (chunker d) = (\<lambda>ev. [])"
  shows "control_step pf c d = d"
proof (cases c)
  case Destroy
  have "clear (renderer d) = renderer d" using assms(2,3) by (simp add: clear_def)
  moreover have "off ev fn (chunker d) = chunker d" for ev fn
    using assms(4) by (simp add: off_def fun_eq_iff)
  ultimately show ?thesis using Destroy assms(1) by (simp add: destroy_def)
qed (simp_all add: assms(1) parser_write_def parser_end_def pause_def resume_def)

lemma destroyed_run:
  assumes "state d = destroyed" "root (renderer d) = []" "blocks (renderer d) = Map.empty"
    "listeners (chunker d) = (\<lambda>ev. [])"
  shows "run pf cs d = d"
  unfolding run_def by (induction cs) (simp_all add: destroyed_step [OF assms])

lemma destroy_wired:
  assumes "wired p"
  shows "listeners (chunker (destroy p)) = (\<lambda>ev. [])"
  using assms
  by (auto simp: wired_def destroy_def off_def hooked_def fun_eq_iff split: ChunkerEvent.splits)

text \<open>
  Claim C5. \<^verbatim>\<open>destroy\<close> has no guard, so it can be called in every state. From any
  state the public calls can reach, it leaves the state \<open>destroyed\<close>, the root without
  children, the map of blocks empty and the chunker without listeners; and every sequence
  of public calls after it returns that same state, on whatever platform: no collaborator
  is called and nothing can raise.
\<close>

theorem destroy_is_final:
  "state (destroy (run pf cs0 new_parser)) = destroyed
   \<and> root (renderer (destroy (run pf cs0 new_parser))) = []
   \<and> blocks (renderer (destroy (run pf cs0 new_parser))) = Map.empty
   \<and> (\<forall>ev. listeners (chunker (destroy (run pf cs0 new_parser))) ev = [])
   \<and> run pf' cs (destroy (run pf cs0 new_parser)) = destroy (run pf cs0 new_parser)"
proof -
  let ?d = "destroy (run pf cs0 new_parser)"
  have w: "wired (run pf cs0 new_parser)" using wired_new by (rule wired_run)
  have 1: "state ?d = destroyed" by (simp add: destroy_def)
  have 2: "root (renderer ?d) = []" by (simp add: destroy_def clear_def)
  have 3: "blocks (renderer ?d) = Map.empty" by (simp add: destroy_def clear_def)
  have 4: "listeners (chunker ?d) = (\<lambda>ev. [])" using w by (rule destroy_wired)
  have 5: "run pf' cs ?d = ?d" using 1 2 3 4 by (rule destroyed_run)
  from 1 2 3 4 5 show ?thesis by simp
qed

theorem destroy_is_final_witness:
  "root (renderer (run example_platform [Write ''ab''] new_parser)) = [0]
   \<and> root (renderer (run example_platform [Write ''ab'', Destroy, Write ''cd'', End, Pause, Resume, Destroy] new_parser)) = []
   \<and> state (run example_platform [Write ''ab'', Destroy, Write ''cd'', End, Pause, Resume, Destroy] new_parser) = destroyed"
proof -
  have a: "root (renderer (run example_platform [Write ''ab''] new_parser)) = [0]" by code_simp
  have b: "run example_platform [Write ''ab'', Destroy, Write ''cd'', End, Pause, Resume, Destroy] new_parser
      = run example_platform [Write ''cd'', End, Pause, Resume, Destroy]
          (destroy (run example_platform [Write ''ab''] new_parser))"
    by (simp add: run_def)
  from destroy_is_final [of example_platform "[Write ''ab'']" example_platform
      "[Write ''cd'', End, Pause, Resume, Destroy]"] a b
  show ?thesis by simp
qed

lemma idle_step: "state p = idle \<Longrightarrow> c \<noteq> Destroy \<Longrightarrow> control_step pf c p = p"
  by (cases c) (simp_all add: parser_write_def parser_end_def pause_def resume_def)

lemma idle_run: "state p = idle \<Longrightarrow> Destroy \<notin> set cs \<Longrightarrow> run pf cs p = p"
  unfolding run_def
proof (induction cs)
  case Nil
  then show ?case by simp
next
  case (Cons c cs)
  then have "control_step pf c p = p" by (intro idle_step) auto
  with Cons show ?case by simp
qed

lemma never_processing_step:
  "state p = idle \<or> state p = destroyed
   \<Longrightarrow> state (control_step pf c p) = idle \<or> state (control_step pf c p) = destroyed"
  by (cases c) (auto simp: parser_write_def parser_end_def pause_def resume_def destroy_def)

lemma never_processing_run:
  "state p = idle \<or> state p = destroyed
   \<Longrightarrow> state (run pf cs p) = idle \<or> state (run pf cs p) = destroyed"
  unfolding run_def
proof (induction cs arbitrary: p)
  case Nil
  then show ?case by simp
next
  case (Cons c cs)
  from Cons.prems have "state (control_step pf c p) = idle \<or> state (control_step pf c p) = destroyed"
    by (rule never_processing_step)
  then show ?case using Cons.IH by simp
qed

lemma deliver_single: "deliver call ls [e] s = fold (\<lambda>fn. call fn e) (ls (event_name e)) s"
  by (simp add: deliver_def)

lemma end_reaches_idle:
  assumes "wired p" "state p = processing"
  shows "state (parser_end pf p) = idle"
proof -
  from assms have l: "listeners (chunker p) = hooked" by (simp add: wired_def)
  show ?thesis
    using assms(2)
    by (simp add: parser_end_eq finish_events_def l deliver_single hooked_def onEnd_def)
qed

text \<open>
  Claim C10. \<^verbatim>\<open>end\<close> in the processing state of a reachable orchestrator leaves it idle.
  In the idle state \<^verbatim>\<open>write\<close>, \<^verbatim>\<open>end\<close>, \<^verbatim>\<open>pause\<close> and \<^verbatim>\<open>resume\<close> return the state
  as it is, and no sequence of public calls brings the state back to \<open>processing\<close>: it
  stays idle until \<^verbatim>\<open>destroy\<close>.
\<close>

theorem ended_session_is_inert:
  assumes "state p = idle"
  shows "parser_write pf f p = p \<and> parser_end pf p = p \<and> pause p = p \<and> resume p = p
    \<and> state (destroy p) = destroyed
    \<and> state (run pf cs p) \<noteq> processing
    \<and> (state (run pf cs p) = idle \<or> state (run pf cs p) = destroyed)
    \<and> (Destroy \<notin> set cs \<longrightarrow> run pf cs p = p)
    \<and> (state (run pf cs0 new_parser) = processing
        \<longrightarrow> state (parser_end pf (run pf cs0 new_parser)) = idle)"
proof -
  have np: "state (run pf cs p) = idle \<or> state (run pf cs p) = destroyed"
    using assms by (intro never_processing_run) simp
  have w: "wired (run pf cs0 new_parser)" using wired_new by (rule wired_run)
  from np assms idle_run [of p cs pf] end_reaches_idle [OF w] show ?thesis
    by (auto simp: parser_write_def parser_end_def pause_def resume_def destroy_def)
qed

theorem ended_session_is_inert_witness:
  "state (run example_platform [Write ''ab'', End] new_parser) = idle
   \<and> run example_platform [Write ''cd'', End, Pause, Resume] (run example_platform [Write ''ab'', End] new_parser)
       = run example_platform [Write ''ab'', End] new_parser
   \<and> state (run example_platform [Resume, Write ''cd'', Destroy, Resume] (run example_platform [Write ''ab'', End] new_parser))
       \<noteq> processing"
proof -
  have h: "state (run example_platform [Write ''ab'', End] new_parser) = idle" by code_simp
  from ended_session_is_inert [OF h, of example_platform _ "[Write ''cd'', End, Pause, Resume]"]
    ended_session_is_inert [OF h, of example_platform _ "[Resume, Write ''cd'', Destroy, Resume]"] h
  show ?thesis by simp
qed

lemma parse_isComplete_eq: "isComplete (parse mp text) = even (fence_count text)"
  by (simp add: parse_def match_fences_def Let_def fence_matches_count [symmetric]
      even_iff_mod_2_eq_zero split: list.splits)

lemma finalMD_found:
  "blocks r i = Some a \<Longrightarrow> element_at r a = Some el \<Longrightarrow> finalMD pf i r = innerText pf el"
  by (simp add: finalMD_def)

text \<open>
  Claim C2. In the processing state, the handler of block-end reads the text of the element
  the renderer holds for the identifier, and calls \<^verbatim>\<open>finalizeBlock\<close> with the completeness
  of that text: the element carries the mark afterwards exactly when it carried it before
  or that text has an even number of fences. Nothing but the renderer enters: two
  orchestrators with the same renderer finalize alike.
\<close>

theorem block_end_finalizes_iff_complete:
  assumes "state p = processing"
    and "blocks (renderer p) i = Some a"
    and "element_at (renderer p) a = Some el"
  shows "deliver (call_listener pf) hooked [BlockEnd i] p = onBlockEnd pf i p
    \<and> onBlockEnd pf i p =
        p\<lparr>renderer := finalizeBlock i (even (fence_count (innerText pf el))) (renderer p)\<rparr>
    \<and> (\<exists>el'. element_at (renderer (onBlockEnd pf i p)) a = Some el'
          \<and> innerHTML el' = innerHTML el
          \<and> (''md-block-complete'' \<in> set (classList el')
               \<longleftrightarrow> ''md-block-complete'' \<in> set (classList el) \<or> even (fence_count (innerText pf el))))
    \<and> (state q = processing \<and> renderer q = renderer p
          \<longrightarrow> renderer (onBlockEnd pf i q) = renderer (onBlockEnd pf i p))"
proof -
  have a: "deliver (call_listener pf) hooked [BlockEnd i] p = onBlockEnd pf i p"
    by (simp add: deliver_single hooked_def)
  have b: "onBlockEnd pf i p =
      p\<lparr>renderer := finalizeBlock i (even (fence_count (innerText pf el))) (renderer p)\<rparr>"
    using assms by (simp add: onBlockEnd_def parse_isComplete_eq finalMD_found)
  have lt: "a < length (elements (renderer p))"
    using assms(3) by (simp add: element_at_def split: if_splits)
  have c: "\<exists>el'. element_at (renderer (onBlockEnd pf i p)) a = Some el'
          \<and> innerHTML el' = innerHTML el
          \<and> (''md-block-complete'' \<in> set (classList el')
               \<longleftrightarrow> ''md-block-complete'' \<in> set (classList el) \<or> even (fence_count (innerText pf el)))"
    using assms lt unfolding b
    by (auto simp: finalizeBlock_def element_at_def classList_add_def)
  have d: "state q = processing \<and> renderer q = renderer p
          \<longrightarrow> renderer (onBlockEnd pf i q) = renderer (onBlockEnd pf i p)"
    using assms(1) by (simp add: onBlockEnd_def)
  from a b c d show ?thesis by blast
qed

theorem block_end_finalizes_iff_complete_witness:
  "state (run stripping_platform [Write (''```js'' @ [newline] @ ''code'')] new_parser) = processing
   \<and> onBlockEnd stripping_platform 1
         (run stripping_platform [Write (''```js'' @ [newline] @ ''code'')] new_parser)
       = (run stripping_platform [Write (''```js'' @ [newline] @ ''code'')] new_parser)
           \<lparr>renderer := finalizeBlock 1 True
              (renderer (run stripping_platform [Write (''```js'' @ [newline] @ ''code'')] new_parser))\<rparr>"
proof -
  let ?p = "run stripping_platform [Write (''```js'' @ [newline] @ ''code'')] new_parser"
  let ?el = "\<lparr>dataset_blockId = 1, innerHTML = ''<pre><code>code</code></pre>'', classList = []\<rparr>"
  have h1: "state ?p = processing" by code_simp
  have h2: "blocks (renderer ?p) 1 = Some 0" by code_simp
  have h3: "element_at (renderer ?p) 0 = Some ?el" by code_simp
  have h4: "even (fence_count (innerText stripping_platform ?el))" by code_simp
  from block_end_finalizes_iff_complete [OF h1 h2 h3, of stripping_platform] h1 h4
  show ?thesis by simp
qed

section \<open>Properties of the segmentation\<close>

lemma segments_None: "indexOf d boundary = None \<Longrightarrow> segments d = ([], d)"
  by (simp add: segments.simps [of d])

lemma segments_Some:
  "indexOf d boundary = Some idx \<Longrightarrow>
   segments d = (take idx d # fst (segments (drop (idx + 2) d)), snd (segments (drop (idx + 2) d)))"
  by (simp add: segments.simps [of d] split: prod.splits)

lemma segments_append:
  "segments (a @ b) =
     (fst (segments a) @ fst (segments (snd (segments a) @ b)), snd (segments (snd (segments a) @ b)))"
proof (induction a rule: segments.induct)
  case (1 a)
  show ?case
  proof (cases "indexOf a boundary")
    case None
    then show ?thesis by (simp add: segments_None)
  next
    case (Some idx)
    then have b: "idx + 2 \<le> length a" using indexOf_bound [of a boundary idx] by (simp add: boundary_def)
    from Some have ab: "indexOf (a @ b) boundary = Some idx" by (rule indexOf_append)
    have "segments (a @ b) =
        (take idx (a @ b) # fst (segments (drop (idx + 2) (a @ b))), snd (segments (drop (idx + 2) (a @ b))))"
      using ab by (rule segments_Some)
    moreover have "take idx (a @ b) = take idx a" "drop (idx + 2) (a @ b) = drop (idx + 2) a @ b"
      using b by simp_all
    moreover note "1.IH" [OF Some] segments_Some [OF Some]
    ultimately show ?thesis by simp
  qed
qed

lemma segments_concat:
  "concat (map (\<lambda>t. t @ boundary) (fst (segments d))) @ snd (segments d) = d"
proof (induction d rule: segments.induct)
  case (1 d)
  show ?case
  proof (cases "indexOf d boundary")
    case None
    then show ?thesis by (simp add: segments_None)
  next
    case (Some idx)
    from indexOf_split [OF Some] have "d = take idx d @ boundary @ drop (idx + 2) d"
      by (simp add: boundary_def)
    with "1.IH" [OF Some] segments_Some [OF Some] show ?thesis by simp
  qed
qed

lemma segments_rest_no_boundary: "indexOf (snd (segments d)) boundary = None"
proof (induction d rule: segments.induct)
  case (1 d)
  show ?case
  proof (cases "indexOf d boundary")
    case None
    then show ?thesis by (simp add: segments_None)
  next
    case (Some idx)
    with "1.IH" [OF Some] segments_Some [OF Some] show ?thesis by simp
  qed
qed

lemma segments_empty: "fst (segments d) = [] \<Longrightarrow> snd (segments d) = d"
  using segments_concat [of d] by simp

lemma segments_rest [simp]: "segments (snd (segments d)) = ([], snd (segments d))"
  using segments_rest_no_boundary by (rule segments_None)

section \<open>Logs of emissions\<close>

lemma start_ids_append [simp]: "start_ids (es @ es') = start_ids es @ start_ids es'"
  by (induction es rule: start_ids.induct) simp_all

lemma end_ids_append [simp]: "end_ids (es @ es') = end_ids es @ end_ids es'"
  by (induction es rule: end_ids.induct) simp_all

lemma last_update_append:
  "last_update (es @ es') i =
     (case last_update es' i of Some t \<Rightarrow> Some t | None \<Rightarrow> last_update es i)"
  by (induction es) (simp_all split: option.splits)

lemma monitor_run_append [simp]: "monitor_run (es @ es') m = monitor_run es' (monitor_run es m)"
  by (induction es arbitrary: m) simp_all

lemma monitor_run_None [simp]: "monitor_run es None = None"
  by (induction es) simp_all

lemma opened_coherent: "coherent cn \<Longrightarrow> opened cn = (Some (target cn), Suc (target cn))"
  by (cases cn rule: coherent.cases) simp_all

lemma loop_events_Cons:
  "coherent cn \<Longrightarrow>
   loop_events cn (t # ts) =
     update_events (fst cn) (snd cn) t @ [BlockEnd (target cn)]
       @ loop_events (None, Suc (target cn)) ts"
  by (cases cn rule: coherent.cases) simp_all

lemma loop_ids_eq:
  "coherent cn \<Longrightarrow> loop_ids cn ts = (if ts = [] then cn else (None, target cn + length ts))"
proof (induction ts arbitrary: cn)
  case Nil
  then show ?case by simp
next
  case (Cons t ts)
  have "loop_ids cn (t # ts) = loop_ids (None, Suc (target cn)) ts"
    using Cons.prems by (cases cn rule: coherent.cases) simp_all
  also have "\<dots> = (if ts = [] then (None, Suc (target cn)) else (None, Suc (target cn) + length ts))"
    using Cons.IH [of "(None, Suc (target cn))"] by simp
  finally show ?case by simp
qed

lemma start_ids_update_events:
  "coherent cn \<Longrightarrow> start_ids (update_events (fst cn) (snd cn) t) = (if fst cn = None then [target cn] else [])"
  by (cases cn rule: coherent.cases) simp_all

lemma end_ids_update_events [simp]: "end_ids (update_events cur n t) = []"
  by (cases cur) simp_all

lemma last_update_update_events:
  "coherent cn \<Longrightarrow>
   last_update (update_events (fst cn) (snd cn) t) i = (if i = target cn then Some t else None)"
  by (cases cn rule: coherent.cases) auto

lemma monitor_update_events:
  "coherent cn \<Longrightarrow>
   monitor_run (update_events (fst cn) (snd cn) t) (Some (monitor_of cn))
     = Some (Some (target cn), True, target cn)"
  by (cases cn rule: coherent.cases) auto

lemma start_ids_loop_events:
  "coherent cn \<Longrightarrow>
   start_ids (loop_events cn ts) =
     [(if fst cn = None then target cn else Suc (target cn))..<target cn + length ts]"
proof (induction ts arbitrary: cn)
  case Nil
  then show ?case by (cases cn rule: coherent.cases) simp_all
next
  case (Cons t ts)
  have "start_ids (loop_events (None, Suc (target cn)) ts) = [Suc (target cn)..<Suc (target cn) + length ts]"
    using Cons.IH [of "(None, Suc (target cn))"] by simp
  then show ?case
    using Cons.prems
    by (simp add: loop_events_Cons start_ids_update_events upt_conv_Cons del: upt_Suc)
qed

lemma end_ids_loop_events:
  "coherent cn \<Longrightarrow> end_ids (loop_events cn ts) = [target cn..<target cn + length ts]"
proof (induction ts arbitrary: cn)
  case Nil
  then show ?case by simp
next
  case (Cons t ts)
  have "end_ids (loop_events (None, Suc (target cn)) ts) = [Suc (target cn)..<Suc (target cn) + length ts]"
    using Cons.IH [of "(None, Suc (target cn))"] by simp
  then show ?case
    using Cons.prems by (simp add: loop_events_Cons upt_conv_Cons del: upt_Suc)
qed

lemma last_update_loop_events:
  "coherent cn \<Longrightarrow>
   last_update (loop_events cn ts) i =
     (if target cn \<le> i \<and> i < target cn + length ts then Some (ts ! (i - target cn)) else None)"
proof (induction ts arbitrary: cn)
  case Nil
  then show ?case by simp
next
  case (Cons t ts)
  have ih: "last_update (loop_events (None, Suc (target cn)) ts) i =
      (if Suc (target cn) \<le> i \<and> i < Suc (target cn) + length ts
       then Some (ts ! (i - Suc (target cn))) else None)"
    using Cons.IH [of "(None, Suc (target cn))"] by simp
  have "last_update (loop_events cn (t # ts)) i =
      (case last_update (loop_events (None, Suc (target cn)) ts) i of
         Some u \<Rightarrow> Some u
       | None \<Rightarrow> (if i = target cn then Some t else None))"
    using Cons.prems
    by (simp add: loop_events_Cons last_update_append last_update_update_events
        split: option.splits)
  also have "\<dots> = (if target cn \<le> i \<and> i < target cn + length (t # ts)
       then Some ((t # ts) ! (i - target cn)) else None)"
    unfolding ih by (auto simp: nth_Cons' Suc_diff_le)
  finally show ?case .
qed

lemma monitor_loop_events:
  "coherent cn \<Longrightarrow> ts \<noteq> [] \<Longrightarrow>
   monitor_run (loop_events cn ts) (Some (monitor_of cn))
     = Some (None, False, target cn + length ts - 1)"
proof (induction ts arbitrary: cn)
  case Nil
  then show ?case by simp
next
  case (Cons t ts)
  have 1: "monitor_run (update_events (fst cn) (snd cn) t @ [BlockEnd (target cn)])
      (Some (monitor_of cn)) = Some (None, False, target cn)"
    using Cons.prems(1) by (simp add: monitor_update_events)
  show ?case
  proof (cases "ts = []")
    case True
    with 1 Cons.prems(1) show ?thesis by (simp add: loop_events_Cons)
  next
    case False
    have "monitor_run (loop_events (None, Suc (target cn)) ts) (Some (None, False, target cn)) =
        Some (None, False, Suc (target cn) + length ts - 1)"
      using Cons.IH [of "(None, Suc (target cn))"] False by simp
    with 1 Cons.prems(1) show ?thesis by (simp add: loop_events_Cons)
  qed
qed

section \<open>Invariants of a sequence of writes\<close>

lemma coherent_ids_after [simp]: "coherent (ids_after w)"
  by (simp add: ids_after_def)

lemma target_ids_after [simp]: "target (ids_after w) = Suc (length (fst (segments w)))"
  by (simp add: ids_after_def)

lemma coherent_opened: "coherent cn \<Longrightarrow> coherent (opened cn)"
  by (cases cn rule: coherent.cases) simp_all

lemma coherent_loop_ids: "coherent cn \<Longrightarrow> coherent (loop_ids cn ts)"
  by (cases cn rule: coherent.cases) (simp_all add: loop_ids_eq)

lemma target_loop_ids: "coherent cn \<Longrightarrow> target (loop_ids cn ts) = target cn + length ts"
  by (simp add: loop_ids_eq)

lemma StreamEnd_update_events [simp]: "StreamEnd \<notin> set (update_events cur n t)"
  by (cases cur) simp_all

lemma structured_update:
  assumes "structured cn tr"
  shows "structured (opened cn) (tr @ update_events (fst cn) (snd cn) t)"
proof (cases cn rule: coherent.cases)
  case (1 n)
  with assms show ?thesis by (auto simp: structured_def)
next
  case (2 k n)
  with assms show ?thesis by (auto simp: structured_def)
qed

lemma structured_cut:
  assumes "structured cn tr"
  shows "structured (None, Suc (target cn))
           (tr @ update_events (fst cn) (snd cn) t @ [BlockEnd (target cn)])"
proof (cases cn rule: coherent.cases)
  case (1 n)
  with assms show ?thesis by (auto simp: structured_def)
next
  case (2 k n)
  with assms show ?thesis by (auto simp: structured_def)
qed

lemma structured_loop:
  "structured cn tr \<Longrightarrow> structured (loop_ids cn ts) (tr @ loop_events cn ts)"
proof (induction ts arbitrary: cn tr)
  case Nil
  then show ?case by simp
next
  case (Cons t ts)
  from Cons.prems have c: "coherent cn" by (simp add: structured_def)
  have "structured (None, Suc (target cn))
      (tr @ update_events (fst cn) (snd cn) t @ [BlockEnd (target cn)])"
    using Cons.prems by (rule structured_cut)
  from Cons.IH [OF this] c show ?case
    by (cases cn rule: coherent.cases) (simp_all add: loop_events_Cons)
qed

lemma structured_write:
  assumes "structured cn tr"
  shows "structured (write_ids buf cn f) (tr @ write_events buf cn f)"
proof -
  obtain ts rest where seg: "segments (buf @ f) = (ts, rest)" by (cases "segments (buf @ f)")
  have l: "structured (loop_ids cn ts) (tr @ loop_events cn ts)"
    using assms by (rule structured_loop)
  show ?thesis
  proof (cases "rest = []")
    case True
    with l seg show ?thesis by (simp add: write_ids_def write_events_def)
  next
    case False
    from structured_update [OF l, of rest] False seg show ?thesis
      by (simp add: write_ids_def write_events_def)
  qed
qed

lemma last_update_write_events:
  assumes "coherent cn" and "segments (buf @ f) = (ts, rest)"
  shows "last_update (write_events buf cn f) i =
     (if target cn \<le> i \<and> i < target cn + length (ts @ (if rest = [] then [] else [rest]))
      then Some ((ts @ (if rest = [] then [] else [rest])) ! (i - target cn)) else None)"
proof (cases "rest = []")
  case True
  with assms show ?thesis by (simp add: write_events_def last_update_loop_events)
next
  case False
  have c': "coherent (loop_ids cn ts)" using assms(1) by (rule coherent_loop_ids)
  have t': "target (loop_ids cn ts) = target cn + length ts" using assms(1) by (rule target_loop_ids)
  have "last_update (write_events buf cn f) i =
      (if i = target cn + length ts then Some rest else last_update (loop_events cn ts) i)"
    using False assms(2)
    by (simp add: write_events_def last_update_append last_update_update_events [OF c'] t')
  also have "\<dots> = (if target cn \<le> i \<and> i < target cn + length (ts @ [rest])
      then Some ((ts @ [rest]) ! (i - target cn)) else None)"
    by (auto simp: last_update_loop_events [OF assms(1)] nth_append)
  finally show ?thesis using False by simp
qed

lemma segments_append_eq:
  assumes "segments w = (ps, r)" and "segments (r @ f) = (ts, rest)"
  shows "segments (w @ f) = (ps @ ts, rest)"
  using segments_append [of w f] assms by simp

lemma segments_Nil_Nil: "segments d = ([], []) \<Longrightarrow> d = []"
  using segments_empty [of d] by simp

lemma write_ids_after: "write_ids (snd (segments w)) (ids_after w) f = ids_after (w @ f)"
proof -
  obtain ps r where w: "segments w = (ps, r)" by (cases "segments w")
  obtain ts rest where f: "segments (r @ f) = (ts, rest)" by (cases "segments (r @ f)")
  note wf = segments_append_eq [OF w f]
  have l: "loop_ids (ids_after w) ts = (if ts = [] then ids_after w else (None, Suc (length ps) + length ts))"
    using w by (simp add: loop_ids_eq)
  show ?thesis
  proof (cases "ts = []")
    case True
    show ?thesis
    proof (cases "rest = []")
      case True
      with \<open>ts = []\<close> f have "r @ f = []" by (intro segments_Nil_Nil) simp
      with True \<open>ts = []\<close> w f wf show ?thesis by (simp add: write_ids_def ids_after_def)
    next
      case False
      with True w f wf show ?thesis by (simp add: write_ids_def ids_after_def)
    qed
  next
    case False
    with w f wf l show ?thesis by (simp add: write_ids_def ids_after_def)
  qed
qed

lemma block_texts_append:
  assumes "segments w = (ps, r)" and "segments (r @ f) = (ts, rest)"
  shows "block_texts (w @ f) = ps @ ts @ (if rest = [] then [] else [rest])"
  using segments_append_eq [OF assms] by (simp add: block_texts_def)

lemma carries_write:
  assumes "carries (block_texts w) tr"
  shows "carries (block_texts (w @ f)) (tr @ write_events (snd (segments w)) (ids_after w) f)"
proof -
  obtain ps r where w: "segments w = (ps, r)" by (cases "segments w")
  obtain ts rest where f: "segments (r @ f) = (ts, rest)" by (cases "segments (r @ f)")
  define new where "new = ts @ (if rest = [] then [] else [rest])"
  define m where "m = length ps"
  have bt: "block_texts (w @ f) = ps @ new"
    using block_texts_append [OF w f] by (simp add: new_def)
  have old: "block_texts w = ps @ (if r = [] then [] else [r])" using w by (simp add: block_texts_def)
  have ne: "r \<noteq> [] \<Longrightarrow> new \<noteq> []"
  proof
    assume "r \<noteq> []" "new = []"
    then have "segments (r @ f) = ([], [])" using f by (simp add: new_def split: if_splits)
    then have "r @ f = []" by (rule segments_Nil_Nil)
    with \<open>r \<noteq> []\<close> show False by simp
  qed
  have lw: "last_update (write_events r (ids_after w) f) i =
      (if Suc m \<le> i \<and> i < Suc m + length new then Some (new ! (i - Suc m)) else None)" for i
    using last_update_write_events [OF coherent_ids_after f, of w i] w
    by (simp add: new_def m_def)
  have o: "last_update tr i =
      (if 1 \<le> i \<and> i \<le> length (block_texts w) then Some (block_texts w ! (i - 1)) else None)" for i
    using assms by (simp add: carries_def)
  have goal: "last_update (tr @ write_events r (ids_after w) f) i =
        (if 1 \<le> i \<and> i \<le> length (ps @ new) then Some ((ps @ new) ! (i - 1)) else None)" for i
  proof (cases "Suc m \<le> i \<and> i < Suc m + length new")
    case True
    then have "\<not> i - 1 < length ps" "i - 1 - length ps = i - Suc m"
      unfolding m_def by linarith+
    then have "(ps @ new) ! (i - 1) = new ! (i - Suc m)" by (simp only: nth_append if_False)
    moreover from True have "1 \<le> i \<and> i \<le> length (ps @ new)" by (simp add: m_def)
    ultimately show ?thesis using True by (simp add: last_update_append lw)
  next
    case False
    then have n: "last_update (write_events r (ids_after w) f) i = None" by (simp add: lw)
    have l: "last_update (tr @ write_events r (ids_after w) f) i = last_update tr i"
      by (simp add: last_update_append n)
    show ?thesis
    proof (cases "1 \<le> i \<and> i \<le> m")
      case True
      then have "i - 1 < length ps" unfolding m_def by linarith
      then have "(ps @ new) ! (i - 1) = ps ! (i - 1)"
        "(ps @ (if r = [] then [] else [r])) ! (i - 1) = ps ! (i - 1)"
        by (simp_all only: nth_append if_True)
      moreover from True have "i \<le> length (ps @ new)" "i \<le> length (block_texts w)"
        by (simp_all add: old m_def)
      ultimately show ?thesis using True by (simp add: l o old)
    next
      case out: False
      with False have "i = 0 \<or> Suc m + length new \<le> i" by auto
      then show ?thesis
      proof
        assume "i = 0"
        with l o [of i] show ?thesis by simp
      next
        assume big: "Suc m + length new \<le> i"
        have "last_update tr i = None"
        proof (cases "r = []")
          case True
          with big show ?thesis by (simp add: o old m_def)
        next
          case False
          from ne [OF this] have "0 < length new" by simp
          with big have "Suc (Suc m) \<le> i" by linarith
          with False show ?thesis by (simp add: o old m_def)
        qed
        moreover from big have "\<not> i \<le> length (ps @ new)" by (simp add: m_def)
        ultimately show ?thesis by (simp add: l)
      qed
    qed
  qed
  show ?thesis
    unfolding carries_def bt using goal w by simp
qed

section \<open>Runs of the observed chunker\<close>

lemma deliver_observe:
  assumes "\<And>ev. length (ls ev) = 1"
  shows "deliver observe ls es tr = tr @ es"
proof (induction es arbitrary: tr)
  case Nil
  then show ?case by simp
next
  case (Cons e es)
  obtain fn where "ls (event_name e) = [fn]"
    using assms [of "event_name e"] by (cases "ls (event_name e)") simp_all
  then have "deliver observe ls [e] tr = tr @ [e]" by (simp add: deliver_def observe_def)
  with Cons.IH [of "tr @ [e]"] show ?case
    using deliver_append [of observe ls "[e]" es tr] by simp
qed

lemma fold_write_eq:
  assumes "buffer c = snd (segments w)" and "ids c = ids_after w"
  shows "fold (chunker_write call) fs (c, s) =
     ((set_ids (ids_after (w @ concat fs)) c)\<lparr>buffer := snd (segments (w @ concat fs))\<rparr>,
      deliver call (listeners c) (writes_events fs (snd (segments w)) (ids_after w)) s)"
  using assms
proof (induction fs arbitrary: c s w)
  case Nil
  then show ?case using set_ids_same [of c] by simp
next
  case (Cons f fs)
  let ?c = "(set_ids (ids_after (w @ f)) c)\<lparr>buffer := snd (segments (w @ f))\<rparr>"
  let ?s = "deliver call (listeners c) (write_events (snd (segments w)) (ids_after w) f) s"
  have b: "snd (segments (snd (segments w) @ f)) = snd (segments (w @ f))"
    by (simp add: segments_append [of w f])
  have 1: "chunker_write call f (c, s) = (?c, ?s)"
    by (simp add: chunker_write_eq Cons.prems write_ids_after b)
  have 2: "fold (chunker_write call) fs (?c, ?s) =
      ((set_ids (ids_after ((w @ f) @ concat fs)) ?c)\<lparr>buffer := snd (segments ((w @ f) @ concat fs))\<rparr>,
       deliver call (listeners ?c) (writes_events fs (snd (segments (w @ f))) (ids_after (w @ f))) ?s)"
    by (rule Cons.IH) simp_all
  show ?case
    by (simp add: 1 2 b write_ids_after)
qed

lemma writes_invariant:
  assumes "structured (ids_after w) tr" and "carries (block_texts w) tr"
  shows "structured (ids_after (w @ concat fs)) (tr @ writes_events fs (snd (segments w)) (ids_after w))
       \<and> carries (block_texts (w @ concat fs)) (tr @ writes_events fs (snd (segments w)) (ids_after w))"
  using assms
proof (induction fs arbitrary: w tr)
  case Nil
  then show ?case by simp
next
  case (Cons f fs)
  let ?tr = "tr @ write_events (snd (segments w)) (ids_after w) f"
  have s: "structured (ids_after (w @ f)) ?tr"
    using structured_write [OF Cons.prems(1), of "snd (segments w)" f] by (simp add: write_ids_after)
  have c: "carries (block_texts (w @ f)) ?tr" using Cons.prems(2) by (rule carries_write)
  have b: "snd (segments (snd (segments w) @ f)) = snd (segments (w @ f))"
    by (simp add: segments_append [of w f])
  from Cons.IH [OF s c] show ?case by (simp add: b write_ids_after)
qed

lemma segments_Nil [simp]: "segments [] = ([], [])"
  by (rule segments_None) (simp add: boundary_def)

lemma observed_chunker_simps [simp]:
  "buffer observed_chunker = []"
  "ids observed_chunker = (None, 1)"
  "length (listeners observed_chunker ev) = 1"
  by (cases ev; simp add: observed_chunker_def on_def new_chunker_def ids_def)+

lemma ids_after_Nil [simp]: "ids_after [] = (None, 1)"
  by (simp add: ids_after_def)

lemma written_eq:
  "written fs =
     ((set_ids (ids_after (concat fs)) observed_chunker)\<lparr>buffer := snd (segments (concat fs))\<rparr>,
      writes_events fs [] (None, 1))"
  unfolding written_def
  using fold_write_eq [of observed_chunker "[]" observe fs "[]"]
  by (simp add: deliver_observe)

lemma written_invariant:
  "structured (ids_after (concat fs)) (snd (written fs))
   \<and> carries (block_texts (concat fs)) (snd (written fs))"
proof -
  have "structured (ids_after []) []" by (simp add: structured_def)
  moreover have "carries (block_texts []) []" by (simp add: carries_def block_texts_def)
  ultimately show ?thesis
    using writes_invariant [of "[]" "[]" fs] by (simp add: written_eq)
qed

section \<open>Sessions of the chunker\<close>

lemma map_filter_carries:
  assumes "carries txts tr" and "n \<le> length txts"
  shows "List.map_filter (last_update tr) [1..<Suc n] = take n txts"
  using assms(2)
proof (induction n)
  case 0
  then show ?case by (simp add: List.map_filter_def)
next
  case (Suc n)
  then have ih: "List.map_filter (last_update tr) [1..<Suc n] = take n txts" by simp
  from Suc.prems assms(1) have "last_update tr (Suc n) = Some (txts ! n)"
    by (simp add: carries_def)
  then have "List.map_filter (last_update tr) [1..<Suc (Suc n)] =
      List.map_filter (last_update tr) [1..<Suc n] @ [txts ! n]"
    by (simp add: List.map_filter_def)
  with ih Suc.prems show ?case by (simp add: take_Suc_conv_app_nth)
qed

lemma sort_remdups_upt [simp]: "sort (remdups [m..<n]) = [m..<n]"
  by (simp add: sorted_sort_id)

lemma length_block_texts: "Suc (length (block_texts w)) = snd (ids_after w)"
  by (simp add: block_texts_def ids_after_def)

lemma written_facts:
  "buffer (fst (written fs)) = snd (segments (concat fs))"
  "ids (fst (written fs)) = ids_after (concat fs)"
  "listeners (fst (written fs)) = listeners observed_chunker"
  "start_ids (snd (written fs)) = [1..<Suc (length (block_texts (concat fs)))]"
  "end_ids (snd (written fs)) = [1..<Suc (length (fst (segments (concat fs))))]"
  "carries (block_texts (concat fs)) (snd (written fs))"
  "monitor_run (snd (written fs)) (Some (None, False, 0)) = Some (monitor_of (ids_after (concat fs)))"
  "StreamEnd \<notin> set (snd (written fs))"
  using written_invariant [of fs]
  by (simp_all add: written_eq structured_def length_block_texts)

lemma final_texts_written: "final_texts (snd (written fs)) = block_texts (concat fs)"
proof -
  have "final_texts (snd (written fs)) =
      List.map_filter (last_update (snd (written fs))) [1..<Suc (length (block_texts (concat fs)))]"
    by (simp only: final_texts_def written_facts(4) sort_remdups_upt)
  also have "\<dots> = take (length (block_texts (concat fs))) (block_texts (concat fs))"
    using written_facts(6) order_refl by (rule map_filter_carries)
  finally show ?thesis by simp
qed

lemma closed_texts_written: "closed_texts (snd (written fs)) = fst (segments (concat fs))"
proof -
  let ?ps = "fst (segments (concat fs))"
  have "closed_texts (snd (written fs)) =
      List.map_filter (last_update (snd (written fs))) [1..<Suc (length ?ps)]"
    by (simp only: closed_texts_def written_facts(5))
  also have "\<dots> = take (length ?ps) (block_texts (concat fs))"
    using written_facts(6) by (rule map_filter_carries) (simp add: block_texts_def)
  finally show ?thesis by (simp add: block_texts_def)
qed

lemma ended_eq:
  "ended fs =
     ((set_ids (finish_ids (snd (segments (concat fs))) (ids_after (concat fs))) (fst (written fs)))
        \<lparr>buffer := []\<rparr>,
      snd (written fs) @ finish_events (snd (segments (concat fs))) (ids_after (concat fs)))"
proof -
  have "ended fs = chunker_end observe (fst (written fs), snd (written fs))"
    by (simp add: ended_def)
  also have "\<dots> =
     ((set_ids (finish_ids (snd (segments (concat fs))) (ids_after (concat fs))) (fst (written fs)))
        \<lparr>buffer := []\<rparr>,
      snd (written fs) @ finish_events (snd (segments (concat fs))) (ids_after (concat fs)))"
    unfolding chunker_end_eq
    by (simp add: written_facts deliver_observe)
  finally show ?thesis .
qed

lemma finish_events_eq:
  "finish_events (snd (segments w)) (ids_after w) =
     (if snd (segments w) = [] then [StreamEnd]
      else [BlockUpdate (Suc (length (fst (segments w)))) (snd (segments w)),
            BlockEnd (Suc (length (fst (segments w)))), StreamEnd])"
  by (simp add: finish_events_def ids_after_def)

lemma finish_ids_eq:
  "finish_ids (snd (segments w)) (ids_after w) = (None, Suc (length (block_texts w)))"
  by (simp add: finish_ids_def ids_after_def block_texts_def)

lemma monitor_of_ids_after:
  "monitor_of (ids_after w) =
     (if snd (segments w) = [] then (None, False, length (fst (segments w)))
      else (Some (Suc (length (fst (segments w)))), True, Suc (length (fst (segments w)))))"
  by (simp add: ids_after_def)

lemma ended_facts:
  "buffer (fst (ended fs)) = []"
  "ids (fst (ended fs)) = (None, Suc (length (block_texts (concat fs))))"
  "start_ids (snd (ended fs)) = [1..<Suc (length (block_texts (concat fs)))]"
  "end_ids (snd (ended fs)) = [1..<Suc (length (block_texts (concat fs)))]"
  "carries (block_texts (concat fs)) (snd (ended fs))"
  "monitor_run (snd (ended fs)) (Some (None, False, 0)) = Some (None, False, length (block_texts (concat fs)))"
proof -
  let ?w = "concat fs"
  show "buffer (fst (ended fs)) = []" by (simp add: ended_eq)
  show "ids (fst (ended fs)) = (None, Suc (length (block_texts ?w)))"
    by (simp add: ended_eq finish_ids_eq)
  show "start_ids (snd (ended fs)) = [1..<Suc (length (block_texts ?w))]"
    by (simp add: ended_eq finish_events_eq written_facts del: upt_Suc)
  show "end_ids (snd (ended fs)) = [1..<Suc (length (block_texts ?w))]"
    by (simp add: ended_eq finish_events_eq written_facts block_texts_def)
  show "monitor_run (snd (ended fs)) (Some (None, False, 0)) = Some (None, False, length (block_texts ?w))"
    by (simp add: ended_eq finish_events_eq written_facts monitor_of_ids_after block_texts_def)
  show "carries (block_texts ?w) (snd (ended fs))"
    unfolding carries_def
  proof
    fix i
    have o: "last_update (snd (written fs)) i =
        (if 1 \<le> i \<and> i \<le> length (block_texts ?w) then Some (block_texts ?w ! (i - 1)) else None)"
      using written_facts(6) [of fs] by (simp add: carries_def)
    have lu: "last_update (finish_events (snd (segments ?w)) (ids_after ?w)) i =
        (if snd (segments ?w) \<noteq> [] \<and> i = Suc (length (fst (segments ?w)))
         then Some (snd (segments ?w)) else None)"
      unfolding finish_events_eq by simp
    have e: "last_update (snd (ended fs)) i =
        (case last_update (finish_events (snd (segments ?w)) (ids_after ?w)) i of
           Some t \<Rightarrow> Some t | None \<Rightarrow> last_update (snd (written fs)) i)"
      by (simp add: ended_eq last_update_append)
    show "last_update (snd (ended fs)) i =
        (if 1 \<le> i \<and> i \<le> length (block_texts ?w) then Some (block_texts ?w ! (i - 1)) else None)"
      unfolding e lu o by (auto simp: block_texts_def nth_append)
  qed
qed

lemma final_texts_ended: "final_texts (snd (ended fs)) = block_texts (concat fs)"
proof -
  have "final_texts (snd (ended fs)) =
      List.map_filter (last_update (snd (ended fs))) [1..<Suc (length (block_texts (concat fs)))]"
    by (simp only: final_texts_def ended_facts(3) sort_remdups_upt)
  also have "\<dots> = take (length (block_texts (concat fs))) (block_texts (concat fs))"
    using ended_facts(5) order_refl by (rule map_filter_carries)
  finally show ?thesis by simp
qed

lemma join_snoc: "ts \<noteq> [] \<Longrightarrow> join sep (ts @ [t]) = join sep ts @ sep @ t"
  by (induction sep ts rule: join.induct) simp_all

lemma concat_sep_join:
  "concat (map (\<lambda>t. t @ sep) ts) = (if ts = [] then [] else join sep ts @ sep)"
  by (induction sep ts rule: join.induct) simp_all

lemma join_block_texts:
  "w = join boundary (block_texts w) @ (if snd (segments w) = [] \<and> w \<noteq> [] then boundary else [])"
proof -
  obtain ps r where s: "segments w = (ps, r)" by (cases "segments w")
  have c: "concat (map (\<lambda>t. t @ boundary) ps) @ r = w" using segments_concat [of w] s by simp
  show ?thesis
  proof (cases "r = []")
    case True
    with c s show ?thesis by (auto simp: block_texts_def concat_sep_join split: if_splits)
  next
    case False
    show ?thesis
    proof (cases "ps = []")
      case True
      with c s False show ?thesis by (simp add: block_texts_def)
    next
      case n: False
      with c s False show ?thesis by (auto simp: block_texts_def concat_sep_join join_snoc)
    qed
  qed
qed

text \<open>
  Claim C1. Conservation. After the fragments \<open>fs\<close> were written and \<^verbatim>\<open>end()\<close> was called,
  the last updates of the blocks, in the order of their identifiers and joined by the
  boundary marker, are the concatenation of the fragments; one more boundary marker follows
  when the buffer was empty at the end of an input that is not empty, that is when the
  input ends exactly on a boundary. After any number of writes, the texts of the closed
  blocks, each followed by the boundary that closed it, and then the buffer are
  exactly what has been written.
\<close>

theorem conservation:
  "concat fs =
     join boundary (final_texts (snd (ended fs)))
       @ (if buffer (fst (written fs)) = [] \<and> concat fs \<noteq> [] then boundary else [])
   \<and> concat (map (\<lambda>t. t @ boundary) (closed_texts (snd (written fs)))) @ buffer (fst (written fs))
       = concat fs"
proof -
  have "concat fs =
     join boundary (final_texts (snd (ended fs)))
       @ (if buffer (fst (written fs)) = [] \<and> concat fs \<noteq> [] then boundary else [])"
    using join_block_texts [of "concat fs"] by (simp only: final_texts_ended written_facts(1))
  moreover have "concat (map (\<lambda>t. t @ boundary) (closed_texts (snd (written fs))))
      @ buffer (fst (written fs)) = concat fs"
    by (simp only: closed_texts_written written_facts(1) segments_concat)
  ultimately show ?thesis by (rule conjI)
qed

theorem conservation_witness:
  "final_texts (snd (ended [''ab'', ''cd'' @ [newline], newline # ''ef''])) = [''abcd'', ''ef'']
   \<and> ''abcd'' @ boundary @ ''ef'' = ''ab'' @ (''cd'' @ [newline]) @ (newline # ''ef'')
   \<and> final_texts (snd (ended [''ab'' @ [newline], [newline]])) = [''ab'']
   \<and> ''ab'' @ [newline] @ [newline] = ''ab'' @ boundary"
proof -
  have a: "final_texts (snd (ended [''ab'', ''cd'' @ [newline], newline # ''ef''])) = [''abcd'', ''ef'']"
    by code_simp
  have b: "buffer (fst (written [''ab'', ''cd'' @ [newline], newline # ''ef''])) = ''ef''"
    by code_simp
  have c: "final_texts (snd (ended [''ab'' @ [newline], [newline]])) = [''ab'']"
    by code_simp
  have d: "buffer (fst (written [''ab'' @ [newline], [newline]])) = []"
    by code_simp
  from conservation [of "[''ab'', ''cd'' @ [newline], newline # ''ef'']"]
    conservation [of "[''ab'' @ [newline], [newline]]"] a b c d
  show ?thesis by simp
qed

lemma written_concat: "fst (written fs) = fst (written [concat fs])"
  by (simp add: written_eq)

text \<open>
  Claim C3. Fragmentation invariance. Writing the fragments \<open>fs\<close> one by one and writing
  their concatenation as one fragment give the same blocks: the same final texts, the
  same identifiers started and closed, the same last update of every block, and the same
  state of the chunker, before \<^verbatim>\<open>end()\<close> (the same blocks closed, the same block open
  with the same buffer) and after it. For the fragments \<^verbatim>\<open>"ab"\<close>, \<^verbatim>\<open>"cd\n"\<close>, \<^verbatim>\<open>"\nef"\<close>
  block 1 is \<^verbatim>\<open>abcd\<close>, closed by the writes, and block 2 is \<^verbatim>\<open>ef\<close>, closed by
  \<^verbatim>\<open>end()\<close>.
\<close>

theorem fragmentation_invariance:
  "final_texts (snd (ended fs)) = final_texts (snd (ended [concat fs]))
   \<and> start_ids (snd (ended fs)) = start_ids (snd (ended [concat fs]))
   \<and> end_ids (snd (ended fs)) = end_ids (snd (ended [concat fs]))
   \<and> (\<forall>i. last_update (snd (ended fs)) i = last_update (snd (ended [concat fs])) i)
   \<and> fst (ended fs) = fst (ended [concat fs])
   \<and> fst (written fs) = fst (written [concat fs])
   \<and> closed_texts (snd (written fs)) = closed_texts (snd (written [concat fs]))
   \<and> end_ids (snd (written fs)) = end_ids (snd (written [concat fs]))
   \<and> final_texts (snd (ended [''ab'', ''cd'' @ [newline], newline # ''ef''])) = [''abcd'', ''ef'']
   \<and> end_ids (snd (written [''ab'', ''cd'' @ [newline], newline # ''ef''])) = [1]
   \<and> end_ids (snd (ended [''ab'', ''cd'' @ [newline], newline # ''ef''])) = [1, 2]"
proof -
  have c: "concat [concat fs] = concat fs" by simp
  have 1: "final_texts (snd (ended fs)) = final_texts (snd (ended [concat fs]))"
    by (simp only: final_texts_ended c)
  have 2: "start_ids (snd (ended fs)) = start_ids (snd (ended [concat fs]))"
    by (simp only: ended_facts(3) c)
  have 3: "end_ids (snd (ended fs)) = end_ids (snd (ended [concat fs]))"
    by (simp only: ended_facts(4) c)
  have 4: "\<forall>i. last_update (snd (ended fs)) i = last_update (snd (ended [concat fs])) i"
    using ended_facts(5) [of fs] ended_facts(5) [of "[concat fs]"] by (simp add: carries_def)
  have 6: "fst (written fs) = fst (written [concat fs])" by (rule written_concat)
  have 5: "fst (ended fs) = fst (ended [concat fs])"
    by (simp only: ended_eq c 6 [symmetric] fst_conv)
  have 7: "closed_texts (snd (written fs)) = closed_texts (snd (written [concat fs]))"
    by (simp only: closed_texts_written c)
  have 8: "end_ids (snd (written fs)) = end_ids (snd (written [concat fs]))"
    by (simp only: written_facts(5) c)
  have 9: "final_texts (snd (ended [''ab'', ''cd'' @ [newline], newline # ''ef''])) = [''abcd'', ''ef'']"
    by code_simp
  have 10: "end_ids (snd (written [''ab'', ''cd'' @ [newline], newline # ''ef''])) = [1]"
    by code_simp
  have 11: "end_ids (snd (ended [''ab'', ''cd'' @ [newline], newline # ''ef''])) = [1, 2]"
    by code_simp
  from 1 2 3 4 5 6 7 8 9 10 11 show ?thesis by blast
qed

theorem fragmentation_invariance_witness:
  "final_texts (snd (ended [''abcd'' @ boundary @ ''ef''])) = [''abcd'', ''ef'']
   \<and> end_ids (snd (ended [''abcd'' @ boundary @ ''ef''])) = [1, 2]"
proof -
  let ?F = "[''ab'', ''cd'' @ [newline], newline # ''ef'']"
  have c: "''abcd'' @ boundary @ ''ef'' = concat ?F" by (simp add: boundary_def)
  note a = fragmentation_invariance [of ?F, THEN conjunct1]
  note b = fragmentation_invariance [of ?F, THEN conjunct2, THEN conjunct2, THEN conjunct1]
  have x: "final_texts (snd (ended ?F)) = [''abcd'', ''ef'']" by code_simp
  have y: "end_ids (snd (ended ?F)) = [1, 2]" by code_simp
  show ?thesis unfolding c a [symmetric] b [symmetric] x y by simp
qed

lemma sorted_wrt_upt_less: "sorted_wrt (<) [m..<n]"
  by (simp add: sorted_wrt_iff_nth_less)

text \<open>
  Claim C8. Monotonic identifiers. The identifiers of the block-start events of a session
  are, in the order of the events, 1, 2, and so on up to the counter: strictly increasing
  and without repetition, during the writes and after \<^verbatim>\<open>end()\<close>. The emissions follow the
  protocol of the monitor, so every update and close carries the identifier its block was
  started with; and the block with the \<open>i\<close>-th identifier holds the \<open>i\<close>-th text of the
  stream, in the order the boundaries are found. Different identifiers have different
  strings, so no string \<^verbatim>\<open>block-n\<close> is used for two blocks.
\<close>

theorem monotonic_identifiers:
  "start_ids (snd (written fs)) = [1..<nextBlockId (fst (written fs))]
   \<and> start_ids (snd (ended fs)) = [1..<nextBlockId (fst (ended fs))]
   \<and> sorted_wrt (<) (start_ids (snd (written fs))) \<and> distinct (start_ids (snd (written fs)))
   \<and> sorted_wrt (<) (start_ids (snd (ended fs))) \<and> distinct (start_ids (snd (ended fs)))
   \<and> well_formed (snd (written fs)) \<and> well_formed (snd (ended fs))
   \<and> carries (block_texts (concat fs)) (snd (ended fs))
   \<and> inj blockId_string \<and> distinct (map blockId_string (start_ids (snd (ended fs))))"
proof -
  have n: "nextBlockId c = snd (ids c)" for c :: "unit MarkdownStreamChunker"
    by (simp add: ids_def)
  have n1: "nextBlockId (fst (written fs)) = Suc (length (block_texts (concat fs)))"
    by (simp only: n written_facts(2) length_block_texts)
  have n2: "nextBlockId (fst (ended fs)) = Suc (length (block_texts (concat fs)))"
    by (simp only: n ended_facts(2) snd_conv)
  have 1: "start_ids (snd (written fs)) = [1..<nextBlockId (fst (written fs))]"
    by (simp only: written_facts(4) n1)
  have 2: "start_ids (snd (ended fs)) = [1..<nextBlockId (fst (ended fs))]"
    by (simp only: ended_facts(3) n2)
  have 3: "sorted_wrt (<) (start_ids (snd (written fs)))" "distinct (start_ids (snd (written fs)))"
    unfolding 1 by (simp_all add: sorted_wrt_upt_less)
  have 4: "sorted_wrt (<) (start_ids (snd (ended fs)))" "distinct (start_ids (snd (ended fs)))"
    unfolding 2 by (simp_all add: sorted_wrt_upt_less)
  have 5: "well_formed (snd (written fs))" by (simp add: well_formed_def written_facts(7))
  have 6: "well_formed (snd (ended fs))" by (simp add: well_formed_def ended_facts(6))
  have 7: "distinct (map blockId_string (start_ids (snd (ended fs))))"
    using 4(2) inj_blockId_string by (simp add: distinct_map inj_on_def inj_def)
  from 1 2 3 4 5 6 7 ended_facts(5) [of fs] inj_blockId_string show ?thesis by blast
qed

theorem monotonic_identifiers_witness:
  "start_ids (snd (ended [''a'' @ boundary, boundary @ ''b'', ''c''])) = [1, 2, 3]
   \<and> nextBlockId (fst (ended [''a'' @ boundary, boundary @ ''b'', ''c''])) = 4
   \<and> map blockId_string [1, 2, 3] = [''block-1'', ''block-2'', ''block-3'']"
proof -
  have n: "nextBlockId (fst (ended [''a'' @ boundary, boundary @ ''b'', ''c''])) = 4" by code_simp
  have u: "[1..<4] = [1, 2, 3::nat]" by code_simp
  have s: "map blockId_string [1, 2, 3] = [''block-1'', ''block-2'', ''block-3'']" by code_simp
  note t = monotonic_identifiers [of "[''a'' @ boundary, boundary @ ''b'', ''c'']",
      THEN conjunct2, THEN conjunct1]
  from t n u s show ?thesis by simp
qed

section \<open>The emissions of one call\<close>

lemma emitted_by_write_eq:
  "emitted_by_write fs chunk = write_events (snd (segments (concat fs))) (ids_after (concat fs)) chunk"
  by (simp add: emitted_by_write_def chunker_write_eq written_facts deliver_observe)

lemma emitted_by_end_eq:
  "emitted_by_end fs = finish_events (snd (segments (concat fs))) (ids_after (concat fs))"
  by (simp add: emitted_by_end_def chunker_end_eq written_facts deliver_observe)

lemma written_snoc:
  "snd (written (fs @ [chunk])) = snd (written fs) @ emitted_by_write fs chunk"
proof -
  obtain c tr where w: "written fs = (c, tr)" by (cases "written fs")
  have l: "length (listeners c ev) = 1" for ev
    using written_facts(3) [of fs] w by simp
  have "written (fs @ [chunk]) = chunker_write observe chunk (c, tr)"
    by (simp add: written_def w [unfolded written_def])
  then have "snd (written (fs @ [chunk])) = tr @ write_events (buffer c) (ids c) chunk"
    by (simp add: chunker_write_eq deliver_observe [OF l])
  with written_facts(1,2) [of fs] w show ?thesis by (simp add: emitted_by_write_eq)
qed

lemma update_mem_update_events:
  "coherent cn \<Longrightarrow>
   BlockUpdate i t \<in> set (update_events (fst cn) (snd cn) u) \<longleftrightarrow> i = target cn \<and> t = u"
  by (cases cn rule: coherent.cases) auto

lemma update_mem_loop_events:
  "coherent cn \<Longrightarrow>
   BlockUpdate i t \<in> set (loop_events cn ts)
     \<longleftrightarrow> target cn \<le> i \<and> i < target cn + length ts \<and> t = ts ! (i - target cn)"
proof (induction ts arbitrary: cn)
  case Nil
  then show ?case by simp
next
  case (Cons u ts)
  have ih: "BlockUpdate i t \<in> set (loop_events (None, Suc (target cn)) ts)
      \<longleftrightarrow> Suc (target cn) \<le> i \<and> i < Suc (target cn) + length ts \<and> t = ts ! (i - Suc (target cn))"
    using Cons.IH [of "(None, Suc (target cn))"] by simp
  have "BlockUpdate i t \<in> set (loop_events cn (u # ts))
      \<longleftrightarrow> (i = target cn \<and> t = u) \<or> BlockUpdate i t \<in> set (loop_events (None, Suc (target cn)) ts)"
    using Cons.prems by (simp add: loop_events_Cons update_mem_update_events)
  also have "\<dots> \<longleftrightarrow> target cn \<le> i \<and> i < target cn + length (u # ts) \<and> t = (u # ts) ! (i - target cn)"
    unfolding ih by (auto simp: nth_Cons' Suc_diff_le)
  finally show ?case .
qed

lemma update_mem_write_events:
  assumes "coherent cn" and "segments (buf @ f) = (ts, rest)"
  shows "BlockUpdate i t \<in> set (write_events buf cn f)
     \<longleftrightarrow> last_update (write_events buf cn f) i = Some t"
proof -
  have c': "coherent (loop_ids cn ts)" using assms(1) by (rule coherent_loop_ids)
  have t': "target (loop_ids cn ts) = target cn + length ts" using assms(1) by (rule target_loop_ids)
  have "BlockUpdate i t \<in> set (write_events buf cn f)
      \<longleftrightarrow> (target cn \<le> i \<and> i < target cn + length ts \<and> t = ts ! (i - target cn))
        \<or> (rest \<noteq> [] \<and> i = target cn + length ts \<and> t = rest)"
    using assms(2)
    by (auto simp: write_events_def update_mem_loop_events [OF assms(1)]
        update_mem_update_events [OF c'] t')
  also have "\<dots> \<longleftrightarrow> last_update (write_events buf cn f) i = Some t"
    unfolding last_update_write_events [OF assms]
    by (auto simp: nth_append)
  finally show ?thesis .
qed

lemma block_texts_in_stream:
  assumes "i < length (block_texts w)"
  shows "\<exists>post. w = concat (map (\<lambda>u. u @ boundary) (take i (block_texts w))) @ block_texts w ! i @ post
           \<and> (post = [] \<or> prefix boundary post)"
proof -
  obtain ps r where s: "segments w = (ps, r)" by (cases "segments w")
  have c: "concat (map (\<lambda>t. t @ boundary) ps) @ r = w" using segments_concat [of w] s by simp
  show ?thesis
  proof (cases "i < length ps")
    case True
    then have "ps = take i ps @ ps ! i # drop (Suc i) ps" by (rule id_take_nth_drop)
    then have "concat (map (\<lambda>t. t @ boundary) ps) =
        concat (map (\<lambda>t. t @ boundary) (take i ps)) @ ps ! i @ boundary
          @ concat (map (\<lambda>t. t @ boundary) (drop (Suc i) ps))"
      by (metis (no_types, lifting) append.assoc concat.simps(2) concat_append list.simps(9) map_append)
    with c have "w = concat (map (\<lambda>t. t @ boundary) (take i ps)) @ ps ! i
        @ (boundary @ concat (map (\<lambda>t. t @ boundary) (drop (Suc i) ps)) @ r)"
      by simp
    moreover have "take i (block_texts w) = take i ps" "block_texts w ! i = ps ! i"
      using True s by (simp_all add: block_texts_def nth_append)
    ultimately show ?thesis by (metis prefixI)
  next
    case False
    with assms s have i: "i = length ps" "r \<noteq> []" by (auto simp: block_texts_def split: if_splits)
    then have "take i (block_texts w) = ps" "block_texts w ! i = r"
      using s by (simp_all add: block_texts_def)
    with c show ?thesis by auto
  qed
qed

text \<open>
  Claim C7. Cumulative updates. The log after a write is the log before it followed by
  what the write emits. Every update a write emits for a block \<open>i\<close> carries the whole text
  of that block in the stream written so far, this fragment included: in the stream, the
  text stands right behind the blocks before \<open>i\<close>, each with its boundary, and runs to the
  end of the stream or to the next boundary; it is the last update of the block. For the
  block that was open before the write, the update is cut from the buffer followed by the
  fragment, never from the fragment alone. The update \<^verbatim>\<open>end()\<close> emits carries the buffer,
  which is the text the open block had.
\<close>

theorem cumulative_updates:
  "snd (written (fs @ [chunk])) = snd (written fs) @ emitted_by_write fs chunk
   \<and> (\<forall>i t. BlockUpdate i t \<in> set (emitted_by_write fs chunk) \<longrightarrow>
          1 \<le> i \<and> i \<le> length (final_texts (snd (written (fs @ [chunk]))))
          \<and> last_update (snd (written (fs @ [chunk]))) i = Some t
          \<and> (\<exists>post. concat fs @ chunk =
                 concat (map (\<lambda>u. u @ boundary)
                   (take (i - 1) (final_texts (snd (written (fs @ [chunk])))))) @ t @ post
               \<and> (post = [] \<or> prefix boundary post)))
   \<and> (\<forall>k. currentBlockId (fst (written fs)) = Some k \<longrightarrow>
          BlockUpdate k
            (case indexOf (buffer (fst (written fs)) @ chunk) boundary of
               None \<Rightarrow> buffer (fst (written fs)) @ chunk
             | Some idx \<Rightarrow> take idx (buffer (fst (written fs)) @ chunk))
            \<in> set (emitted_by_write fs chunk))
   \<and> (\<forall>i t. BlockUpdate i t \<in> set (emitted_by_end fs) \<longrightarrow>
          t = buffer (fst (written fs)) \<and> currentBlockId (fst (written fs)) = Some i
          \<and> last_update (snd (written fs)) i = Some t)"
proof -
  let ?w = "concat fs"
  let ?w' = "concat fs @ chunk"
  obtain ps r where w: "segments ?w = (ps, r)" by (cases "segments ?w")
  obtain ts rest where f: "segments (r @ chunk) = (ts, rest)" by (cases "segments (r @ chunk)")
  have ft: "final_texts (snd (written (fs @ [chunk]))) = block_texts ?w'"
    using final_texts_written [of "fs @ [chunk]"] by simp
  have car: "carries (block_texts ?w') (snd (written (fs @ [chunk])))"
    using written_facts(6) [of "fs @ [chunk]"] by simp
  have ids: "ids (fst (written fs)) = ids_after ?w" by (rule written_facts(2))
  have buf: "buffer (fst (written fs)) = r" using written_facts(1) [of fs] w by simp
  have 1: "snd (written (fs @ [chunk])) = snd (written fs) @ emitted_by_write fs chunk"
    by (rule written_snoc)
  have 2: "1 \<le> i \<and> i \<le> length (final_texts (snd (written (fs @ [chunk]))))
          \<and> last_update (snd (written (fs @ [chunk]))) i = Some t
          \<and> (\<exists>post. concat fs @ chunk =
                 concat (map (\<lambda>u. u @ boundary)
                   (take (i - 1) (final_texts (snd (written (fs @ [chunk])))))) @ t @ post
               \<and> (post = [] \<or> prefix boundary post))"
    if m: "BlockUpdate i t \<in> set (emitted_by_write fs chunk)" for i t
  proof -
    from m have "last_update (emitted_by_write fs chunk) i = Some t"
      unfolding emitted_by_write_eq
      using update_mem_write_events [where cn = "ids_after ?w" and buf = "snd (segments ?w)"
          and f = chunk and ts = ts and rest = rest and i = i and t = t] w f
      by simp
    then have lu: "last_update (snd (written (fs @ [chunk]))) i = Some t"
      by (simp add: 1 last_update_append)
    with car have rng: "1 \<le> i \<and> i \<le> length (block_texts ?w')" and t: "t = block_texts ?w' ! (i - 1)"
      by (auto simp: carries_def split: if_splits)
    from rng have "i - 1 < length (block_texts ?w')" by linarith
    from block_texts_in_stream [OF this] t rng lu show ?thesis
      unfolding ft by simp
  qed
  have 3: "BlockUpdate k
            (case indexOf (buffer (fst (written fs)) @ chunk) boundary of
               None \<Rightarrow> buffer (fst (written fs)) @ chunk
             | Some idx \<Rightarrow> take idx (buffer (fst (written fs)) @ chunk))
            \<in> set (emitted_by_write fs chunk)"
    if k: "currentBlockId (fst (written fs)) = Some k" for k
  proof -
    from k ids w have r: "r \<noteq> []" and cn: "ids_after ?w = (Some k, Suc k)"
      by (auto simp: ids_def ids_after_def split: if_splits)
    show ?thesis
    proof (cases "indexOf (r @ chunk) boundary")
      case None
      then have "segments (r @ chunk) = ([], r @ chunk)" by (rule segments_None)
      with None r w cn show ?thesis
        by (simp add: buf emitted_by_write_eq write_events_def)
    next
      case (Some idx)
      from segments_Some [OF Some] Some w cn show ?thesis
        by (simp add: buf emitted_by_write_eq write_events_def)
    qed
  qed
  have 4: "t = buffer (fst (written fs)) \<and> currentBlockId (fst (written fs)) = Some i
          \<and> last_update (snd (written fs)) i = Some t"
    if m: "BlockUpdate i t \<in> set (emitted_by_end fs)" for i t
  proof -
    have fe: "emitted_by_end fs =
        (if r = [] then [StreamEnd] else [BlockUpdate (Suc (length ps)) r, BlockEnd (Suc (length ps)), StreamEnd])"
      unfolding emitted_by_end_eq finish_events_eq using w by simp
    with m have r: "r \<noteq> []" and i: "i = Suc (length ps)" and t: "t = r"
      by (auto split: if_splits)
    have "currentBlockId (fst (written fs)) = Some i"
      using ids w r i by (simp add: ids_def ids_after_def)
    moreover have "last_update (snd (written fs)) i = Some t"
      using written_facts(6) [of fs] w r i t by (simp add: carries_def block_texts_def)
    ultimately show ?thesis using t buf by simp
  qed
  from 1 2 3 4 show ?thesis by blast
qed

theorem cumulative_updates_witness:
  "BlockUpdate 1 ''abcd'' \<in> set (emitted_by_write [''ab''] ''cd'')
   \<and> last_update (snd (written [''ab'', ''cd''])) 1 = Some ''abcd''
   \<and> BlockUpdate 1 ''ab'' \<in> set (emitted_by_write [''ab'' @ [newline]] (newline # ''cd''))
   \<and> BlockUpdate 2 ''cd'' \<in> set (emitted_by_write [''ab'' @ [newline]] (newline # ''cd''))"
proof -
  have a: "BlockUpdate 1 ''abcd'' \<in> set (emitted_by_write [''ab''] ''cd'')" by code_simp
  have b: "currentBlockId (fst (written [''ab'' @ [newline]])) = Some 1" by code_simp
  have c: "(case indexOf (buffer (fst (written [''ab'' @ [newline]])) @ newline # ''cd'') boundary of
               None \<Rightarrow> buffer (fst (written [''ab'' @ [newline]])) @ newline # ''cd''
             | Some idx \<Rightarrow> take idx (buffer (fst (written [''ab'' @ [newline]])) @ newline # ''cd'')) = ''ab''"
    by code_simp
  have d: "BlockUpdate 2 ''cd'' \<in> set (emitted_by_write [''ab'' @ [newline]] (newline # ''cd''))"
    by code_simp
  from cumulative_updates [of "[''ab'']" "''cd''"] a
  have "last_update (snd (written ([''ab''] @ [''cd'']))) 1 = Some ''abcd''" by blast
  moreover from cumulative_updates [of "[''ab'' @ [newline]]" "newline # ''cd''"] b
  have "BlockUpdate 1
            (case indexOf (buffer (fst (written [''ab'' @ [newline]])) @ newline # ''cd'') boundary of
               None \<Rightarrow> buffer (fst (written [''ab'' @ [newline]])) @ newline # ''cd''
             | Some idx \<Rightarrow> take idx (buffer (fst (written [''ab'' @ [newline]])) @ newline # ''cd''))
            \<in> set (emitted_by_write [''ab'' @ [newline]] (newline # ''cd''))" by blast
  ultimately show ?thesis using a d unfolding c by simp
qed

section \<open>Empty blocks, and the events at the orchestrator\<close>

lemma segments_boundary_first: "[] \<in> set (fst (segments (boundary @ y)))"
proof -
  have "indexOf (boundary @ y) boundary = Some 0" by (rule indexOf_hit) simp
  from segments_Some [OF this] show ?thesis by simp
qed

lemma empty_segment: "[] \<in> set (fst (segments (x @ boundary @ boundary @ y)))"
proof (induction x rule: length_induct)
  case (1 x)
  let ?d = "x @ boundary @ boundary @ y"
  have "prefix boundary (drop (length x) ?d)" by simp
  then obtain idx where idx: "idx \<le> length x" "indexOf ?d boundary = Some idx"
    using indexOf_exists [of "length x" ?d boundary] by auto
  note s = segments_Some [OF idx(2)]
  consider "idx + 2 \<le> length x" | "idx = length x" | "Suc idx = length x"
    using idx(1) by linarith
  then show ?case
  proof cases
    case 1
    then have "drop (idx + 2) ?d = drop (idx + 2) x @ boundary @ boundary @ y" by simp
    moreover have "length (drop (idx + 2) x) < length x" using 1 by simp
    ultimately have "[] \<in> set (fst (segments (drop (idx + 2) ?d)))"
      using "1.IH" by simp
    with s show ?thesis by simp
  next
    case 2
    then have "drop (idx + 2) ?d = boundary @ y" by (simp add: boundary_def)
    with s segments_boundary_first [of y] show ?thesis by simp
  next
    case 3
    then have "drop (idx + 2) ?d = boundary @ newline # y"
      by (simp add: boundary_def)
    with s segments_boundary_first [of "newline # y"] show ?thesis by simp
  qed
qed

lemma start_ids_mem: "i \<in> set (start_ids tr) \<longleftrightarrow> BlockStart i \<in> set tr"
  by (induction tr rule: start_ids.induct) auto

lemma end_ids_mem: "i \<in> set (end_ids tr) \<longleftrightarrow> BlockEnd i \<in> set tr"
  by (induction tr rule: end_ids.induct) auto

lemma deliver_hooked:
  "state p = processing \<Longrightarrow> e \<noteq> StreamEnd \<Longrightarrow>
   deliver (call_listener pf) hooked [e] p = p\<lparr>renderer := render_event pf e (renderer p)\<rparr>"
  by (cases e)
    (simp_all add: deliver_single hooked_def onBlockStart_def onBlockUpdate_def onBlockEnd_def)

lemma deliver_render:
  "state p = processing \<Longrightarrow> StreamEnd \<notin> set es \<Longrightarrow>
   deliver (call_listener pf) hooked es p = p\<lparr>renderer := fold (render_event pf) es (renderer p)\<rparr>"
proof (induction es arbitrary: p)
  case Nil
  then show ?case by simp
next
  case (Cons e es)
  let ?q = "p\<lparr>renderer := render_event pf e (renderer p)\<rparr>"
  have 1: "deliver (call_listener pf) hooked [e] p = ?q"
    using Cons.prems by (intro deliver_hooked) auto
  have 2: "deliver (call_listener pf) hooked es ?q = ?q\<lparr>renderer := fold (render_event pf) es (renderer ?q)\<rparr>"
    using Cons.prems by (intro Cons.IH) auto
  have "deliver (call_listener pf) hooked (e # es) p = deliver (call_listener pf) hooked es (deliver (call_listener pf) hooked [e] p)"
    using deliver_append [of "call_listener pf" hooked "[e]" es p] by simp
  with 1 2 show ?case by simp
qed

lemma StreamEnd_loop_events [simp]: "StreamEnd \<notin> set (loop_events cn ts)"
proof (induction ts arbitrary: cn)
  case Nil
  then show ?case by simp
next
  case (Cons t ts)
  then show ?case by (cases cn; cases "fst cn") auto
qed

lemma StreamEnd_write_events [simp]: "StreamEnd \<notin> set (write_events buf cn f)"
  by (simp add: write_events_def split: prod.splits)

lemma run_writes:
  assumes "state p = processing" and "listeners (chunker p) = hooked"
    and "buffer (chunker p) = snd (segments w)" and "ids (chunker p) = ids_after w"
  shows "run pf (map Write fs) p =
     p\<lparr>renderer := fold (render_event pf) (writes_events fs (snd (segments w)) (ids_after w)) (renderer p),
       chunker := (set_ids (ids_after (w @ concat fs)) (chunker p))\<lparr>buffer := snd (segments (w @ concat fs))\<rparr>\<rparr>"
  using assms
proof (induction fs arbitrary: p w)
  case Nil
  then show ?case using set_ids_same [of "chunker p"] by (simp add: run_def)
next
  case (Cons f fs)
  let ?c = "(set_ids (ids_after (w @ f)) (chunker p))\<lparr>buffer := snd (segments (w @ f))\<rparr>"
  let ?es = "write_events (snd (segments w)) (ids_after w) f"
  let ?q = "p\<lparr>renderer := fold (render_event pf) ?es (renderer p), chunker := ?c\<rparr>"
  have b: "snd (segments (snd (segments w) @ f)) = snd (segments (w @ f))"
    by (simp add: segments_append [of w f])
  have 1: "parser_write pf f p = ?q"
    using Cons.prems
    by (simp add: parser_write_eq deliver_render write_ids_after b)
  have 2: "run pf (map Write fs) ?q =
      ?q\<lparr>renderer := fold (render_event pf) (writes_events fs (snd (segments (w @ f))) (ids_after (w @ f))) (renderer ?q),
         chunker := (set_ids (ids_after ((w @ f) @ concat fs)) (chunker ?q))\<lparr>buffer := snd (segments ((w @ f) @ concat fs))\<rparr>\<rparr>"
    using Cons.prems by (intro Cons.IH) simp_all
  have "run pf (map Write (f # fs)) p = run pf (map Write fs) (parser_write pf f p)"
    by (simp add: run_def)
  with 1 2 show ?case by (simp add: b write_ids_after)
qed

lemma new_parser_simps [simp]:
  "state new_parser = processing"
  "listeners (chunker new_parser) = hooked"
  "buffer (chunker new_parser) = []"
  "ids (chunker new_parser) = (None, 1)"
  "renderer new_parser = new_renderer"
  using wired_new
  by (simp_all add: wired_def new_parser_def hookup_def on_def new_chunker_def ids_def)

lemma renderer_after_writes:
  "renderer (run pf (map Write fs) new_parser) = fold (render_event pf) (snd (written fs)) new_renderer"
  using run_writes [of new_parser "[]" pf fs] by (simp add: written_eq)

lemma last_update_mem: "last_update tr i = Some t \<Longrightarrow> BlockUpdate i t \<in> set tr"
proof (induction tr)
  case Nil
  then show ?case by simp
next
  case (Cons e tr)
  show ?case
  proof (cases "last_update tr i")
    case None
    with Cons.prems have "update_for i e = Some t" by simp
    then have "e = BlockUpdate i t" by (cases e) (auto split: if_splits)
    then show ?thesis by simp
  next
    case (Some u)
    with Cons show ?thesis by simp
  qed
qed

lemma render_event_regions:
  "length (root (render_event pf e r)) = length (root r) + length (start_ids [e])
   \<and> dom (blocks (render_event pf e r)) = dom (blocks r) \<union> set (start_ids [e])"
  by (cases e)
    (auto simp: createBlock_def updateBlock_def finalizeBlock_def Let_def split: option.splits)

lemma fold_render_regions:
  "length (root (fold (render_event pf) es r)) = length (root r) + length (start_ids es)
   \<and> dom (blocks (fold (render_event pf) es r)) = dom (blocks r) \<union> set (start_ids es)"
proof (induction es arbitrary: r)
  case Nil
  then show ?case by simp
next
  case (Cons e es)
  have "start_ids (e # es) = start_ids [e] @ start_ids es"
    using start_ids_append [of "[e]" es] by simp
  with Cons.IH [of "render_event pf e r"] render_event_regions [of pf e r] show ?case
    by auto
qed

text \<open>
  Claim C9. Empty blocks. Every segment of the stream written so far, an empty one
  included, has a block of its own: the log holds its block-start, an update with the
  segment's text, which is its last update, and its block-end, in the order the monitor
  checks. A stream with two boundary markers and nothing between them has an empty
  segment, so the log then holds the start, an update with the empty text and the end of
  one block. The orchestrator's handlers receive every emission of the log: its renderer is
  the log's events applied in order, and it holds one region for each block, the empty
  ones included.
\<close>

theorem empty_blocks_are_emitted:
  "(\<forall>i. i < length (fst (segments (concat fs))) \<longrightarrow>
       BlockStart (Suc i) \<in> set (snd (written fs))
       \<and> BlockUpdate (Suc i) (fst (segments (concat fs)) ! i) \<in> set (snd (written fs))
       \<and> BlockEnd (Suc i) \<in> set (snd (written fs))
       \<and> last_update (snd (written fs)) (Suc i) = Some (fst (segments (concat fs)) ! i))
   \<and> well_formed (snd (written fs))
   \<and> [] \<in> set (fst (segments (x @ boundary @ boundary @ y)))
   \<and> (concat fs = x @ boundary @ boundary @ y \<longrightarrow>
        (\<exists>i. BlockStart i \<in> set (snd (written fs)) \<and> BlockUpdate i [] \<in> set (snd (written fs))
            \<and> BlockEnd i \<in> set (snd (written fs)) \<and> last_update (snd (written fs)) i = Some []))
   \<and> renderer (run pf (map Write fs) new_parser) = fold (render_event pf) (snd (written fs)) new_renderer
   \<and> length (root (renderer (run pf (map Write fs) new_parser))) = length (block_texts (concat fs))
   \<and> dom (blocks (renderer (run pf (map Write fs) new_parser))) = {1..length (block_texts (concat fs))}"
proof -
  let ?tr = "snd (written fs)"
  let ?ps = "fst (segments (concat fs))"
  have 1: "BlockStart (Suc i) \<in> set ?tr \<and> BlockUpdate (Suc i) (?ps ! i) \<in> set ?tr
      \<and> BlockEnd (Suc i) \<in> set ?tr \<and> last_update ?tr (Suc i) = Some (?ps ! i)"
    if i: "i < length ?ps" for i
  proof -
    from i have "Suc i \<in> {1..<Suc (length (block_texts (concat fs)))}" "Suc i \<in> {1..<Suc (length ?ps)}"
      by (auto simp: block_texts_def)
    then have "Suc i \<in> set (start_ids ?tr)" "Suc i \<in> set (end_ids ?tr)"
      unfolding written_facts(4,5) set_upt .
    then have se: "BlockStart (Suc i) \<in> set ?tr" "BlockEnd (Suc i) \<in> set ?tr"
      by (simp_all add: start_ids_mem end_ids_mem)
    from i have lu: "last_update ?tr (Suc i) = Some (?ps ! i)"
      using written_facts(6) [of fs] by (simp add: carries_def block_texts_def nth_append)
    from se lu last_update_mem [OF lu] show ?thesis by simp
  qed
  have 2: "well_formed ?tr" by (simp add: well_formed_def written_facts(7))
  have 3: "[] \<in> set (fst (segments (x @ boundary @ boundary @ y)))" by (rule empty_segment)
  have 4: "\<exists>i. BlockStart i \<in> set ?tr \<and> BlockUpdate i [] \<in> set ?tr
            \<and> BlockEnd i \<in> set ?tr \<and> last_update ?tr i = Some []"
    if c: "concat fs = x @ boundary @ boundary @ y"
  proof -
    from 3 c have "[] \<in> set ?ps" by simp
    then obtain i where "i < length ?ps" "?ps ! i = []" by (auto simp: in_set_conv_nth)
    with 1 [of i] show ?thesis by auto
  qed
  have 5: "renderer (run pf (map Write fs) new_parser) = fold (render_event pf) ?tr new_renderer"
    by (rule renderer_after_writes)
  have 6: "length (root (renderer (run pf (map Write fs) new_parser))) = length (block_texts (concat fs))"
    unfolding 5 using fold_render_regions [of pf ?tr new_renderer]
    by (simp add: written_facts(4) new_renderer_def del: upt_Suc)
  have 7: "dom (blocks (renderer (run pf (map Write fs) new_parser))) = {1..length (block_texts (concat fs))}"
    unfolding 5 using fold_render_regions [of pf ?tr new_renderer]
    by (auto simp add: written_facts(4) new_renderer_def simp del: upt_Suc)
  from 1 2 3 4 5 6 7 show ?thesis by blast
qed

theorem empty_blocks_are_emitted_witness:
  "snd (written [''a'' @ boundary @ boundary @ ''b'']) =
     [BlockStart 1, BlockUpdate 1 ''a'', BlockEnd 1,
      BlockStart 2, BlockUpdate 2 [], BlockEnd 2,
      BlockStart 3, BlockUpdate 3 ''b'']
   \<and> last_update (snd (written [''a'' @ boundary @ boundary @ ''b''])) 2 = Some []
   \<and> length (root (renderer (run example_platform (map Write [''a'' @ boundary @ boundary @ ''b'']) new_parser))) = 3"
proof -
  define w where "w = ''a'' @ boundary @ boundary @ ''b''"
  have a: "snd (written [w]) =
     [BlockStart 1, BlockUpdate 1 ''a'', BlockEnd 1,
      BlockStart 2, BlockUpdate 2 [], BlockEnd 2,
      BlockStart 3, BlockUpdate 3 ''b'']"
    unfolding w_def by code_simp
  have b: "fst (segments (concat [w])) = [''a'', []]" unfolding w_def by code_simp
  have c: "length (block_texts (concat [w])) = 3" unfolding w_def by code_simp
  note t = empty_blocks_are_emitted [where fs = "[w]" and pf = example_platform and x = "[]" and y = "[]"]
  from t have "Suc 0 < length (fst (segments (concat [w])))
      \<longrightarrow> last_update (snd (written [w])) (Suc (Suc 0)) = Some (fst (segments (concat [w])) ! Suc 0)"
    by blast
  then have d: "last_update (snd (written [w])) 2 = Some []"
    unfolding b by (simp add: numeral_2_eq_2)
  from t have e: "length (root (renderer (run example_platform (map Write [w]) new_parser))) = 3"
    unfolding c by blast
  from a d e show ?thesis unfolding w_def by simp
qed

section \<open>The region of a block that ends\<close>

text \<open>
  In a session of writes and \<^verbatim>\<open>end()\<close>, the orchestrator is in the processing state when
  it handles a block-end, its renderer is what the emissions before have made of it, and
  that renderer holds an element for the block: the monitor has seen the block start, and
  the handler of block-start has created the element.
\<close>

lemma monitor_open_started:
  "monitor_run es (Some m0) = Some (Some k, u, hi) \<Longrightarrow> fst m0 = Some k \<or> k \<in> set (start_ids es)"
proof (induction es arbitrary: m0)
  case Nil
  then show ?case by simp
next
  case (Cons e es)
  from Cons.prems obtain m1 where m1: "monitor_step e m0 = Some m1"
    by (cases "monitor_step e m0") simp_all
  with Cons.prems have "monitor_run es (Some m1) = Some (Some k, u, hi)" by simp
  from Cons.IH [OF this] have "fst m1 = Some k \<or> k \<in> set (start_ids es)" .
  then show ?case
  proof
    assume "fst m1 = Some k"
    with m1 show ?thesis
      by (cases "(e, m0)" rule: monitor_step.cases) (auto split: if_splits)
  next
    assume "k \<in> set (start_ids es)"
    then show ?thesis by (cases e) simp_all
  qed
qed

lemma render_event_addressed:
  assumes "\<And>i a. blocks r i = Some a \<Longrightarrow> a < length (elements r)"
    and "blocks (render_event pf e r) i = Some a"
  shows "a < length (elements (render_event pf e r))"
proof (cases e)
  case (BlockStart j)
  with assms show ?thesis
    by (auto simp: createBlock_def Let_def less_Suc_eq split: if_splits)
next
  case (BlockUpdate j t)
  with assms show ?thesis by (auto simp: updateBlock_def split: option.splits)
next
  case (BlockEnd j)
  with assms show ?thesis by (auto simp: finalizeBlock_def split: option.splits if_splits)
next
  case StreamEnd
  with assms show ?thesis by simp
qed

lemma fold_render_addressed:
  assumes "\<And>i a. blocks r i = Some a \<Longrightarrow> a < length (elements r)"
    and "blocks (fold (render_event pf) es r) i = Some a"
  shows "a < length (elements (fold (render_event pf) es r))"
  using assms
proof (induction es arbitrary: r)
  case Nil
  then show ?case by simp
next
  case (Cons e es)
  have "\<And>i a. blocks (render_event pf e r) i = Some a \<Longrightarrow> a < length (elements (render_event pf e r))"
    using Cons.prems(1) by (rule render_event_addressed)
  from Cons.IH [OF this] Cons.prems(2) show ?case by simp
qed

lemma ended_log_StreamEnd:
  "\<exists>tr. snd (ended fs) = tr @ [StreamEnd] \<and> StreamEnd \<notin> set tr"
proof -
  have "snd (ended fs) =
      (snd (written fs) @ butlast (finish_events (snd (segments (concat fs))) (ids_after (concat fs))))
        @ [StreamEnd]"
    by (simp add: ended_eq finish_events_def)
  moreover have "StreamEnd \<notin> set (snd (written fs) @
      butlast (finish_events (snd (segments (concat fs))) (ids_after (concat fs))))"
    by (cases "ids_after (concat fs)"; cases "fst (ids_after (concat fs))")
      (auto simp: finish_events_def written_facts(8) butlast_append)
  ultimately show ?thesis by blast
qed

lemma block_end_finds_region:
  assumes "snd (ended fs) = pre @ BlockEnd i # post"
  shows "deliver (call_listener pf) hooked pre new_parser
           = new_parser\<lparr>renderer := fold (render_event pf) pre new_renderer\<rparr>
       \<and> (\<exists>a el. blocks (fold (render_event pf) pre new_renderer) i = Some a
             \<and> element_at (fold (render_event pf) pre new_renderer) a = Some el)"
proof -
  let ?r = "fold (render_event pf) pre new_renderer"
  obtain tr where tr: "snd (ended fs) = tr @ [StreamEnd]" "StreamEnd \<notin> set tr"
    using ended_log_StreamEnd by blast
  have "post \<noteq> []"
  proof
    assume "post = []"
    with assms tr(1) have "pre @ [BlockEnd i] = tr @ [StreamEnd]" by simp
    then show False by simp
  qed
  then obtain post' where "post = post' @ [last post]" by (metis append_butlast_last_id)
  with assms tr(1) have "(pre @ BlockEnd i # post') @ [last post] = tr @ [StreamEnd]" by simp
  then have "tr = pre @ BlockEnd i # post'" by simp
  with tr(2) have ns: "StreamEnd \<notin> set pre" by simp
  have 1: "deliver (call_listener pf) hooked pre new_parser = new_parser\<lparr>renderer := ?r\<rparr>"
    using deliver_render [of new_parser pre pf] ns by simp
  have "monitor_run (pre @ BlockEnd i # post) (Some (None, False, 0)) \<noteq> None"
    using ended_facts(6) [of fs] assms by simp
  then have "Option.bind (monitor_run pre (Some (None, False, 0))) (monitor_step (BlockEnd i)) \<noteq> None"
    by (cases "Option.bind (monitor_run pre (Some (None, False, 0))) (monitor_step (BlockEnd i))") auto
  then obtain m where m: "monitor_run pre (Some (None, False, 0)) = Some m"
    "monitor_step (BlockEnd i) m \<noteq> None"
    by (cases "monitor_run pre (Some (None, False, 0))") auto
  from m(2) obtain hi where "m = (Some i, True, hi)"
    by (cases "(BlockEnd i, m)" rule: monitor_step.cases) (auto split: if_splits)
  with m(1) monitor_open_started [of pre "(None, False, 0)" i True hi]
  have "i \<in> set (start_ids pre)" by simp
  then have "i \<in> dom (blocks ?r)"
    using fold_render_regions [of pf pre new_renderer] by (simp add: new_renderer_def)
  then obtain a where a: "blocks ?r i = Some a" by auto
  have "a < length (elements ?r)"
    by (rule fold_render_addressed [OF _ a]) (simp add: new_renderer_def)
  then have "element_at ?r a = Some (elements ?r ! a)" by (simp add: element_at_def)
  with 1 a show ?thesis by blast
qed

end
